theory Spec2Isabelle
  imports Main "HOL-Library.Word" "HOL-Library.Sublist" "HOL-Library.Code_Target_Numeral"
begin

unbundle bit_operations_syntax

section \<open>JavaScript values\<close>

text \<open>
  A JavaScript string is a sequence of UTF-16 code units. The schema's display keys are
  Chinese text, so they are written as code units; the engine field names are ASCII and
  are written through \<open>ascii\<close>.
\<close>

type_synonym jsstring = "16 word list"

definition ascii :: "string \<Rightarrow> jsstring" where
  "ascii s = map of_char s"

text \<open>
  The values that can reach the panel: what the boundary deserialises from JSON
  (null, booleans, numbers, strings, arrays, objects), \<open>undefined\<close> for a property that
  is not there, and the members every plain object inherits from \<open>Object.prototype\<close>.
  A number is kept as its IEEE-754 binary64 bit pattern. An object is the list of its own
  properties.
\<close>

datatype jsval =
    JUndefined
  | JNull
  | JBool bool
  | JNum "64 word"
  | JStr jsstring
  | JArr "jsval list"
  | JObj "(jsstring \<times> jsval) list"
  | JInherited jsstring

type_synonym jsobject = "(jsstring \<times> jsval) list"

definition num_is_zero :: "64 word \<Rightarrow> bool" where
  "num_is_zero w \<longleftrightarrow> w AND 0x7FFFFFFFFFFFFFFF = 0"

definition num_is_nan :: "64 word \<Rightarrow> bool" where
  "num_is_nan w \<longleftrightarrow>
     w AND 0x7FF0000000000000 = 0x7FF0000000000000 \<and> w AND 0x000FFFFFFFFFFFFF \<noteq> 0"

text \<open>ToBoolean: the falsy values are undefined, null, false, +0, -0, NaN and the empty string.\<close>

fun truthy :: "jsval \<Rightarrow> bool" where
  "truthy JUndefined = False"
| "truthy JNull = False"
| "truthy (JBool b) = b"
| "truthy (JNum w) = (\<not> num_is_zero w \<and> \<not> num_is_nan w)"
| "truthy (JStr s) = (s \<noteq> [])"
| "truthy (JArr xs) = True"
| "truthy (JObj ps) = True"
| "truthy (JInherited n) = True"

text \<open>The operator \<open>a || b\<close>: \<open>a\<close> itself when it is truthy, \<open>b\<close> otherwise.\<close>

definition js_or :: "jsval \<Rightarrow> jsval \<Rightarrow> jsval" where
  "js_or a b = (if truthy a then a else b)"

text \<open>
  The property names of \<open>Object.prototype\<close>, which a lookup on a plain object reaches
  when the object has no own property of that name.
\<close>

definition object_prototype_names :: "jsstring list" where
  "object_prototype_names = map ascii
     [''constructor'', ''hasOwnProperty'', ''isPrototypeOf'', ''propertyIsEnumerable'',
      ''toLocaleString'', ''toString'', ''valueOf'', ''__proto__'',
      ''__defineGetter__'', ''__defineSetter__'', ''__lookupGetter__'', ''__lookupSetter__'']"

text \<open>The lookup \<open>data[name]\<close> on a plain object.\<close>

definition get_prop :: "jsobject \<Rightarrow> jsstring \<Rightarrow> jsval" where
  "get_prop data name =
     (case map_of data name of
        Some v \<Rightarrow> v
      | None \<Rightarrow> if name \<in> set object_prototype_names then JInherited name else JUndefined)"

text \<open>
  \<open>String.prototype.trim\<close> removes the white space and line terminator code units of
  ECMAScript from both ends of the string.
\<close>

definition is_js_whitespace :: "16 word \<Rightarrow> bool" where
  "is_js_whitespace c \<longleftrightarrow>
     c = 0x0009 \<or> c = 0x000A \<or> c = 0x000B \<or> c = 0x000C \<or> c = 0x000D \<or> c = 0x0020 \<or>
     c = 0x00A0 \<or> c = 0x1680 \<or> (0x2000 \<le> c \<and> c \<le> 0x200A) \<or> c = 0x2028 \<or>
     c = 0x2029 \<or> c = 0x202F \<or> c = 0x205F \<or> c = 0x3000 \<or> c = 0xFEFF"

definition trim :: "jsstring \<Rightarrow> jsstring" where
  "trim s = rev (dropWhile is_js_whitespace (rev (dropWhile is_js_whitespace s)))"

section \<open>IpFieldService\<close>

record item =
  key :: jsstring
  field :: jsstring
  val :: jsval

definition getData :: "item list" where
  "getData = [
     \<lparr>key = [0x5730, 0x5740, 0x7C7B, 0x578B],
      field = ascii ''fieldType'',
      val = JStr []\<rparr>,
     \<lparr>key = [0x538B, 0x7F29, 0x5730, 0x5740],
      field = ascii ''comAddress'',
      val = JStr []\<rparr>,
     \<lparr>key = [0x6269, 0x5C55, 0x5730, 0x5740],
      field = ascii ''exAddress'',
      val = JStr []\<rparr>,
     \<lparr>key = [0x4E8C, 0x8FDB, 0x5236, 0x5730, 0x5740],
      field = ascii ''binaryAddress'',
      val = JStr []\<rparr>,
     \<lparr>key = [0x5B50, 0x7F51],
      field = ascii ''subnet'',
      val = JStr []\<rparr>,
     \<lparr>key = [0x5B50, 0x7F51, 0x63A9, 0x7801],
      field = ascii ''subnetMask'',
      val = JStr []\<rparr>,
     \<lparr>key = [0x4E0A, 0x4E00, 0x4E2A, 0x5730, 0x5740],
      field = ascii ''prevAddress'',
      val = JStr []\<rparr>,
     \<lparr>key = [0x4E0B, 0x4E00, 0x4E2A, 0x5730, 0x5740],
      field = ascii ''nextAddress'',
      val = JStr []\<rparr>,
     \<lparr>key = [0x6574, 0x6570, 0x503C],
      field = ascii ''intValue'',
      val = JStr []\<rparr>,
     \<lparr>key = [0x9AD8, 0x4F4E, 0x0036, 0x0034, 0x4F4D, 0x6709, 0x7B26, 0x53F7, 0x6570],
      field = ascii ''highLow64BitSignedNumber'',
      val = JStr []\<rparr>,
     \<lparr>key = [0x8F6C, 0x4E3A, 0x0020, 0x0049, 0x0050, 0x0076, 0x0034],
      field = ascii ''toIpv4'',
      val = JStr []\<rparr>,
     \<lparr>key = [0x8F6C, 0x4E3A, 0x0020, 0x0049, 0x0050, 0x0076, 0x0036],
      field = ascii ''toIpv6'',
      val = JStr []\<rparr>,
     \<lparr>key = [0x7F51, 0x7EDC, 0x5730, 0x5740, 0xFF08, 0x5F00, 0x59CB, 0x0069, 0x0070, 0xFF09],
      field = ascii ''netWorkAddress'',
      val = JStr []\<rparr>,
     \<lparr>key = [0x7F51, 0x7EDC, 0x5730, 0x5740, 0xFF08, 0x5F00, 0x59CB, 0x0069, 0x0070, 0xFF09, 0x6574, 0x6570, 0x503C],
      field = ascii ''netWorkAddressIntValue'',
      val = JStr []\<rparr>,
     \<lparr>key = [0x7F51, 0x7EDC, 0x5730, 0x5740, 0xFF08, 0x5F00, 0x59CB, 0x0069, 0x0070, 0xFF09, 0x9AD8, 0x4F4E, 0x0036, 0x0034, 0x4F4D, 0x6709, 0x7B26, 0x53F7, 0x6570],
      field = ascii ''netWorkAddressHighLow64BitSignedNumber'',
      val = JStr []\<rparr>,
     \<lparr>key = [0x7F51, 0x7EDC, 0x5730, 0x5740, 0xFF08, 0x5F00, 0x59CB, 0x0069, 0x0070, 0xFF09, 0x4E8C, 0x8FDB, 0x5236, 0x5730, 0x5740],
      field = ascii ''netWorkAddressBinaryAddress'',
      val = JStr []\<rparr>,
     \<lparr>key = [0x5E7F, 0x64AD, 0x5730, 0x5740, 0xFF08, 0x7ED3, 0x675F, 0x0069, 0x0070, 0xFF09],
      field = ascii ''broadcastAddress'',
      val = JStr []\<rparr>,
     \<lparr>key = [0x5E7F, 0x64AD, 0x5730, 0x5740, 0xFF08, 0x7ED3, 0x675F, 0x0069, 0x0070, 0xFF09, 0x6574, 0x6570, 0x503C],
      field = ascii ''broadcastAddressIntValue'',
      val = JStr []\<rparr>,
     \<lparr>key = [0x5E7F, 0x64AD, 0x5730, 0x5740, 0xFF08, 0x7ED3, 0x675F, 0x0069, 0x0070, 0xFF09, 0x9AD8, 0x4F4E, 0x0036, 0x0034, 0x4F4D, 0x6709, 0x7B26, 0x53F7, 0x6570],
      field = ascii ''broadcastAddressHighLow64BitSignedNumber'',
      val = JStr []\<rparr>,
     \<lparr>key = [0x5E7F, 0x64AD, 0x5730, 0x5740, 0xFF08, 0x7ED3, 0x675F, 0x0069, 0x0070, 0xFF09, 0x4E8C, 0x8FDB, 0x5236, 0x5730, 0x5740],
      field = ascii ''broadcastAddressBinaryAddress'',
      val = JStr []\<rparr>]"

text \<open>
  \<open>getFieldList\<close> calls \<open>this.getData()\<close>: the receiver is the object the method is
  called on, here always \<open>IpFieldService\<close>.
\<close>

record service =
  getData_method :: "unit \<Rightarrow> item list"

definition getFieldList :: "service \<Rightarrow> item list" where
  "getFieldList this = getData_method this ()"

definition IpFieldService :: service where
  "IpFieldService = \<lparr>getData_method = (\<lambda>_. getData)\<rparr>"

text \<open>
  The list above is the value of the array literal. Each evaluation of the literal also
  creates the twenty objects anew: with object identity written out, the heap is the
  list of the objects created so far, the address of an object is its position, and an
  object literal puts a new object behind the existing ones.
\<close>

type_synonym heap = "item list"

definition new_object :: "item \<Rightarrow> heap \<Rightarrow> nat \<times> heap" where
  "new_object obj h = (length h, h @ [obj])"

fun new_array :: "item list \<Rightarrow> heap \<Rightarrow> nat list \<times> heap" where
  "new_array [] h = ([], h)"
| "new_array (obj # objs) h =
     (case new_object obj h of
        (a, h1) \<Rightarrow> (case new_array objs h1 of (as, h2) \<Rightarrow> (a # as, h2)))"

definition getData_new :: "heap \<Rightarrow> nat list \<times> heap" where
  "getData_new h = new_array getData h"

section \<open>The panel IpTranslation.vue\<close>

text \<open>
  The panel's reactive state: the rows of the table and the text of the input box,
  which starts as \<open>172.17.205.22\<close>.
\<close>

record panel =
  resultList :: "item list"
  inputIp :: jsstring

definition initial_panel :: panel where
  "initial_panel = \<lparr>resultList = [], inputIp = ascii ''172.17.205.22''\<rparr>"

record toast_message =
  severity :: jsstring
  summary :: jsstring
  detail :: jsval
  life :: nat

text \<open>
  The promise \<open>invoke('translate_ip', {ip: ...})\<close> settles in one of two ways: it is
  fulfilled with the engine's result map or rejected with the engine's error value.
  The engine itself runs behind the boundary and is a parameter of the model.
\<close>

datatype outcome = Fulfilled jsobject | Rejected jsval

text \<open>
  \<open>handleResult\<close> up to the call of \<open>invoke\<close>: the rows are emptied and the input is
  trimmed in place. The second component is the \<open>ip\<close> argument that
  \<open>invoke('translate_ip', {ip: inputIp.value})\<close> submits to the engine.
\<close>

definition handleResult_invoke :: "panel \<Rightarrow> panel \<times> jsstring" where
  "handleResult_invoke st =
     (let st1 = st\<lparr>resultList := []\<rparr>;
          st2 = st1\<lparr>inputIp := trim (inputIp st1)\<rparr>
      in (st2, inputIp st2))"

text \<open>The callback of \<open>then\<close>, run with the result map when the promise is fulfilled.\<close>

definition handleResult_then :: "jsobject \<Rightarrow> panel \<Rightarrow> panel" where
  "handleResult_then data st =
     (let ipFieldList = getFieldList IpFieldService
      in st\<lparr>resultList :=
              filter (\<lambda>item. val item \<noteq> JStr [])
                (map (\<lambda>item. item\<lparr>val := js_or (get_prop data (field item)) (JStr [])\<rparr>)
                   ipFieldList)\<rparr>)"

text \<open>The callback of \<open>catch\<close>, run with the error value when the promise is rejected.\<close>

definition handleResult_catch :: "jsval \<Rightarrow> toast_message" where
  "handleResult_catch err =
     \<lparr>severity = ascii ''error'',
      summary = [0x89E3, 0x6790, 0x5931, 0x8D25],
      detail = err,
      life = 1300\<rparr>"

text \<open>
  The promise settles some time after \<open>handleResult\<close> has returned, and nothing keeps
  the user from editing the input or calling \<open>handleResult\<close> again in the meantime.
  The state of the application is therefore the panel, the \<open>ip\<close> arguments of the
  calls of \<open>invoke\<close> that have not settled yet, and the notifications added to the
  toast service so far.
\<close>

record app =
  ui :: panel
  pending :: "jsstring list"
  toasts :: "toast_message list"

definition initial_app :: app where
  "initial_app = \<lparr>ui = initial_panel, pending = [], toasts = []\<rparr>"

text \<open>
  What can happen: the user edits the input box (\<open>v-model\<close>); the user clicks the button
  or presses Enter, which runs \<open>handleResult\<close> up to \<open>invoke\<close>; one of the pending
  promises settles, with the engine's answer for its \<open>ip\<close>, and its \<open>then\<close> or \<open>catch\<close>
  callback runs on the panel as it is at that moment. Pending promises settle in any
  order. \<open>Settle i\<close> for a position without a pending promise changes nothing.
\<close>

datatype event = Input jsstring | Submit | Settle nat

fun step :: "(jsstring \<Rightarrow> outcome) \<Rightarrow> app \<Rightarrow> event \<Rightarrow> app" where
  "step translate_ip a (Input s) = a\<lparr>ui := (ui a)\<lparr>inputIp := s\<rparr>\<rparr>"
| "step translate_ip a Submit =
     (case handleResult_invoke (ui a) of
        (st', ip) \<Rightarrow> a\<lparr>ui := st', pending := pending a @ [ip]\<rparr>)"
| "step translate_ip a (Settle i) =
     (if i < length (pending a) then
        (case translate_ip (pending a ! i) of
           Fulfilled data \<Rightarrow>
             a\<lparr>ui := handleResult_then data (ui a),
               pending := take i (pending a) @ drop (Suc i) (pending a)\<rparr>
         | Rejected err \<Rightarrow>
             a\<lparr>toasts := toasts a @ [handleResult_catch err],
               pending := take i (pending a) @ drop (Suc i) (pending a)\<rparr>)
      else a)"

definition run :: "(jsstring \<Rightarrow> outcome) \<Rightarrow> app \<Rightarrow> event list \<Rightarrow> app" where
  "run translate_ip a events = foldl (step translate_ip) a events"

text \<open>
  One call of \<open>handleResult\<close> that settles before anything else happens, started with
  no other call pending: the new state of the panel and the notifications added.
  Calls that overlap are runs of \<open>step\<close> in which other events come between \<open>Submit\<close>
  and the \<open>Settle\<close> that belongs to it.
\<close>

definition handleResult :: "(jsstring \<Rightarrow> outcome) \<Rightarrow> panel \<Rightarrow> panel \<times> toast_message list" where
  "handleResult translate_ip st =
     (let a = run translate_ip \<lparr>ui = st, pending = [], toasts = []\<rparr> [Submit, Settle 0]
      in (ui a, toasts a))"

text \<open>
  Calls one after the other: each input is entered and submitted, and its promise
  settles before the next input is entered.
\<close>

definition sequential_calls :: "jsstring list \<Rightarrow> event list" where
  "sequential_calls inputs = concat (map (\<lambda>s. [Input s, Submit, Settle 0]) inputs)"

text \<open>The rows that a call with the given input leaves in the table once it has settled.\<close>

definition rows_for :: "(jsstring \<Rightarrow> outcome) \<Rightarrow> jsstring \<Rightarrow> item list" where
  "rows_for translate_ip s =
     (case translate_ip (trim s) of
        Fulfilled data \<Rightarrow> resultList (handleResult_then data initial_panel)
      | Rejected err \<Rightarrow> [])"

text \<open>
  An engine for two inputs, and two calls that overlap: the call for \<open>1.1.1.1\<close> is
  submitted first, the call for \<open>::1\<close> second; the second promise settles first.
\<close>

definition example_engine :: "jsstring \<Rightarrow> outcome" where
  "example_engine ip =
     (if ip = ascii ''1.1.1.1'' then
        Fulfilled [(ascii ''fieldType'', JStr (ascii ''IPv4'')),
                   (ascii ''comAddress'', JStr (ascii ''1.1.1.1''))]
      else if ip = ascii ''::1'' then
        Fulfilled [(ascii ''fieldType'', JStr (ascii ''IPv6'')),
                   (ascii ''comAddress'', JStr (ascii ''::1''))]
      else Rejected (JStr (ascii ''invalid'')))"

definition overlapping_calls :: "event list" where
  "overlapping_calls =
     [Input (ascii ''1.1.1.1''), Submit, Input (ascii ''::1''), Submit, Settle 1, Settle 0]"

text \<open>
  Modelled from the spec: the engine behind \<open>translate_ip\<close> is not part of these
  sources. Its ResultRecord is a mapping from field name to string value.
\<close>

definition is_ResultRecord :: "jsobject \<Rightarrow> bool" where
  "is_ResultRecord data \<longleftrightarrow>
     list_all (\<lambda>(name, v). case v of JStr s \<Rightarrow> True | _ \<Rightarrow> False) data"

text \<open>
  The rows the specification describes for a result map: one row for each schema entry
  whose field name is in the map with a value that is not empty, carrying that value,
  in the order of the schema.
\<close>

definition displayed_rows_spec :: "jsobject \<Rightarrow> item list" where
  "displayed_rows_spec data =
     concat (map (\<lambda>entry. case map_of data (field entry) of
                             None \<Rightarrow> []
                           | Some v \<Rightarrow> if v = JStr [] then [] else [entry\<lparr>val := v\<rparr>])
               getData)"

section \<open>The engine's subnet calculator\<close>

text \<open>
  Modelled from the spec: the engine (CanonicalAddress, SubnetContext, deriveSubnet) is
  not part of these sources. An address has a family and its bits, an IPv4 value being
  stored widened into the 128-bit space; the bits stay within the width of the family.
\<close>

datatype family = IPv4 | IPv6

text \<open>Modelled from the spec: the CanonicalAddress of section 3, a family and the bits in the 128-bit space.\<close>

record CanonicalAddress =
  family :: family
  bits :: "128 word"

text \<open>Modelled from the spec: the bit width of a family, 32 for IPv4 and 128 for IPv6.\<close>

definition width :: "family \<Rightarrow> nat" where
  "width f = (case f of IPv4 \<Rightarrow> 32 | IPv6 \<Rightarrow> 128)"

text \<open>Modelled from the spec: the invariant of CanonicalAddress, the bits are within the range of the family.\<close>

definition valid_address :: "CanonicalAddress \<Rightarrow> bool" where
  "valid_address addr \<longleftrightarrow> uint (bits addr) < 2 ^ width (family addr)"

text \<open>Modelled from the spec: the errors of the subnet calculator, section 7.\<close>

datatype SubnetError = InvalidPrefix | Underflow | Overflow

text \<open>Modelled from the spec: the SubnetContext of section 3.\<close>

record SubnetContext =
  prefixLength :: int
  maskBits :: "128 word"
  networkAddress :: "128 word"
  broadcastAddress :: "128 word"

text \<open>
  Modelled from the spec: the mask of a prefix length, within an address width, is that
  many leading one-bits followed by zero-bits.
\<close>

definition prefix_mask :: "nat \<Rightarrow> nat \<Rightarrow> 128 word" where
  "prefix_mask w p = push_bit (w - p) (mask p)"

text \<open>
  Modelled from the spec: \<open>deriveSubnet\<close> takes the address and an optional prefix
  length, the full width of the family when none is given; it fails with InvalidPrefix
  when the prefix length is negative or exceeds the width; the network address is
  \<open>bits AND mask\<close> and the broadcast address \<open>bits OR (NOT mask)\<close> bounded to the width.
\<close>

definition deriveSubnet :: "CanonicalAddress \<Rightarrow> int option \<Rightarrow> SubnetError + SubnetContext" where
  "deriveSubnet addr plen =
     (let w = width (family addr);
          p = (case plen of None \<Rightarrow> int w | Some n \<Rightarrow> n)
      in if p < 0 \<or> int w < p then Inl InvalidPrefix
         else let m = prefix_mask w (nat p)
              in Inr \<lparr>prefixLength = p,
                      maskBits = m,
                      networkAddress = bits addr AND m,
                      broadcastAddress = bits addr OR (NOT m AND mask w)\<rparr>)"

section \<open>The engine's parser and formatter\<close>

text \<open>
  Modelled from the spec: \<open>parse\<close> and \<open>format\<close> are not part of these sources. The
  engine's text is a list of characters. Where the specification refers to the standard
  textual form of IPv6 addresses, the definitions follow RFC 4291 for reading and
  RFC 5952 for the compressed form.
\<close>

datatype ParseError = InvalidFormat | OutOfRange

text \<open>Modelled from the spec: the parser trims surrounding white space.\<close>

definition is_space :: "char \<Rightarrow> bool" where
  "is_space c \<longleftrightarrow>
     (of_char c :: nat) = 32 \<or> (9 \<le> (of_char c :: nat) \<and> (of_char c :: nat) \<le> 13)"

text \<open>Modelled from the spec: surrounding white space is removed from both ends.\<close>

definition trim_text :: "string \<Rightarrow> string" where
  "trim_text s = rev (dropWhile is_space (rev (dropWhile is_space s)))"

text \<open>
  Modelled from the spec: groups are separated by \<open>.\<close> or \<open>:\<close>. \<open>split_on\<close> cuts a text
  at every separator, \<open>join\<close> puts the separator between the pieces.
\<close>

fun split_on :: "char \<Rightarrow> string \<Rightarrow> string list" where
  "split_on c [] = [[]]"
| "split_on c (x # xs) =
     (if x = c then [] # split_on c xs
      else (case split_on c xs of [] \<Rightarrow> [[x]] | t # ts \<Rightarrow> (x # t) # ts))"

text \<open>Modelled from the spec: the pieces of a text are put together with the separator between them.\<close>

fun join :: "string \<Rightarrow> string list \<Rightarrow> string" where
  "join sep [] = []"
| "join sep [t] = t"
| "join sep (t # ts) = t @ sep @ join sep ts"

text \<open>
  Modelled from the spec: numbers in positional notation, most significant digit first.
  \<open>to_digits b k n\<close> are the \<open>k\<close> low digits of \<open>n\<close> (the four octets, the eight 16-bit
  groups); \<open>digits_of b n\<close> is the shortest notation of \<open>n\<close>, without leading zeros.
\<close>

definition from_digits :: "nat \<Rightarrow> nat list \<Rightarrow> nat" where
  "from_digits b ds = foldl (\<lambda>acc d. acc * b + d) 0 ds"

text \<open>Modelled from the spec: a value as a fixed number of digits, most significant first.\<close>

fun to_digits :: "nat \<Rightarrow> nat \<Rightarrow> nat \<Rightarrow> nat list" where
  "to_digits b 0 n = []"
| "to_digits b (Suc k) n = to_digits b k (n div b) @ [n mod b]"

text \<open>Modelled from the spec: a value in its shortest notation, without leading zeros.\<close>

function digits_of :: "nat \<Rightarrow> nat \<Rightarrow> nat list" where
  "digits_of b n = (if b < 2 \<or> n < b then [n] else digits_of b (n div b) @ [n mod b])"
  by pat_completeness auto
termination
  by (relation "measure snd") auto

declare digits_of.simps [simp del]

text \<open>
  Modelled from the spec: decimal and hexadecimal digits. Hexadecimal digits are read in
  either case and written in lower case.
\<close>

definition digit_char :: "nat \<Rightarrow> char" where
  "digit_char d = (if d < 10 then char_of (48 + d) else char_of (87 + d))"

text \<open>Modelled from the spec: the decimal digits.\<close>

definition is_dec_digit :: "char \<Rightarrow> bool" where
  "is_dec_digit c \<longleftrightarrow> 48 \<le> (of_char c :: nat) \<and> (of_char c :: nat) \<le> 57"

text \<open>Modelled from the spec: the hexadecimal digits, in either case.\<close>

definition is_hex_digit :: "char \<Rightarrow> bool" where
  "is_hex_digit c \<longleftrightarrow> is_dec_digit c
     \<or> (97 \<le> (of_char c :: nat) \<and> (of_char c :: nat) \<le> 102)
     \<or> (65 \<le> (of_char c :: nat) \<and> (of_char c :: nat) \<le> 70)"

text \<open>Modelled from the spec: the value of a digit.\<close>

definition digit_value :: "char \<Rightarrow> nat" where
  "digit_value c =
     (let n = of_char c in if n \<le> 57 then n - 48 else if n \<le> 70 then n - 55 else n - 87)"

text \<open>Modelled from the spec: the value of a text of digits in a base.\<close>

definition read_digits :: "nat \<Rightarrow> string \<Rightarrow> nat" where
  "read_digits b s = from_digits b (map digit_value s)"

text \<open>Modelled from the spec: a value in decimal.\<close>

definition show_dec :: "nat \<Rightarrow> string" where
  "show_dec n = map digit_char (digits_of 10 n)"

text \<open>Modelled from the spec: a 16-bit group in hexadecimal with leading zeros suppressed.\<close>

definition show_hex :: "nat \<Rightarrow> string" where
  "show_hex n = map digit_char (digits_of 16 n)"

text \<open>Modelled from the spec: a decimal group is a non-empty text of decimal digits.\<close>

definition dec_group :: "string \<Rightarrow> bool" where
  "dec_group g \<longleftrightarrow> g \<noteq> [] \<and> list_all is_dec_digit g"

text \<open>Modelled from the spec: a hexadecimal group is one to four hexadecimal digits.\<close>

definition hex_group :: "string \<Rightarrow> bool" where
  "hex_group g \<longleftrightarrow> g \<noteq> [] \<and> length g \<le> 4 \<and> list_all is_hex_digit g"

text \<open>
  Modelled from the spec: dotted-decimal IPv4 syntax is four decimal groups separated by
  \<open>.\<close>; decoding fails with OutOfRange for an octet outside 0 to 255.
\<close>

definition is_ipv4_syntax :: "string \<Rightarrow> bool" where
  "is_ipv4_syntax s \<longleftrightarrow>
     (let gs = split_on (CHR ''.'') s in length gs = 4 \<and> list_all dec_group gs)"

text \<open>Modelled from the spec: the value of a dotted IPv4 text, OutOfRange for an octet outside 0 to 255.\<close>

definition parse_ipv4 :: "string \<Rightarrow> ParseError + nat" where
  "parse_ipv4 s =
     (let octets = map (read_digits 10) (split_on (CHR ''.'') s)
      in if list_all (\<lambda>n. n \<le> 255) octets then Inr (from_digits 256 octets)
         else Inl OutOfRange)"

text \<open>
  Modelled from the spec: colon-form IPv6 with the \<open>::\<close> zero-run compression and an
  optional trailing embedded IPv4. The text is cut at the colons; an empty piece marks
  \<open>::\<close>, which at either end of the text leaves a second empty piece. The groups before
  \<open>::\<close> are hexadecimal groups; the groups after it, or all groups when there is no
  \<open>::\<close>, may end with a dotted IPv4 that stands for two groups. \<open>::\<close> stands for the
  zero groups that fill the address up to eight groups, at least one.
\<close>

definition plain_groups :: "string list \<Rightarrow> ParseError + nat list" where
  "plain_groups toks =
     (if list_all hex_group toks then Inr (map (read_digits 16) toks) else Inl InvalidFormat)"

text \<open>Modelled from the spec: the groups of an IPv6 text that may end with an embedded dotted IPv4.\<close>

fun tail_groups :: "string list \<Rightarrow> ParseError + nat list" where
  "tail_groups [] = Inr []"
| "tail_groups [t] =
     (if is_ipv4_syntax t then
        (case parse_ipv4 t of Inl e \<Rightarrow> Inl e | Inr v \<Rightarrow> Inr [v div 65536, v mod 65536])
      else if hex_group t then Inr [read_digits 16 t]
      else Inl InvalidFormat)"
| "tail_groups (t # ts) =
     (if hex_group t then
        (case tail_groups ts of Inl e \<Rightarrow> Inl e | Inr gs \<Rightarrow> Inr (read_digits 16 t # gs))
      else Inl InvalidFormat)"

text \<open>Modelled from the spec: the eight groups of an IPv6 text, given its pieces between the colons.\<close>

definition groups_of_tokens :: "string list \<Rightarrow> ParseError + nat list" where
  "groups_of_tokens toks =
     (let l = takeWhile (\<lambda>t. t \<noteq> []) toks;
          rest = dropWhile (\<lambda>t. t \<noteq> []) toks
      in case rest of
           [] \<Rightarrow>
             (case tail_groups l of
                Inl e \<Rightarrow> Inl e
              | Inr gs \<Rightarrow> if length gs = 8 then Inr gs else Inl InvalidFormat)
         | gap # r \<Rightarrow>
             (case (if l = [] then (case r of [] \<Rightarrow> None | t # r' \<Rightarrow> if t = [] then Some r' else None)
                    else Some r) of
                None \<Rightarrow> Inl InvalidFormat
              | Some r' \<Rightarrow>
                  if r' = [] then Inl InvalidFormat
                  else (case plain_groups l of
                          Inl e \<Rightarrow> Inl e
                        | Inr lg \<Rightarrow>
                            (case tail_groups (if r' = [[]] then [] else r') of
                               Inl e \<Rightarrow> Inl e
                             | Inr rg \<Rightarrow>
                                 if length lg + length rg \<le> 7
                                 then Inr (lg @ replicate (8 - (length lg + length rg)) 0 @ rg)
                                 else Inl InvalidFormat))))"

text \<open>Modelled from the spec: the eight groups of a colon-form IPv6 text.\<close>

definition parse_ipv6 :: "string \<Rightarrow> ParseError + nat list" where
  "parse_ipv6 s = groups_of_tokens (split_on (CHR '':'') s)"

text \<open>
  Modelled from the spec: a plain integer is written in base 10, or in base 16 after
  the prefix \<open>0x\<close>.
\<close>

definition parse_integer :: "string \<Rightarrow> nat option" where
  "parse_integer s =
     (if dec_group s then Some (read_digits 10 s)
      else (case s of
              z # x # hs \<Rightarrow>
                if z = CHR ''0'' \<and> (x = CHR ''x'' \<or> x = CHR ''X'') \<and> hs \<noteq> [] \<and>
                   list_all is_hex_digit hs
                then Some (read_digits 16 hs) else None
            | _ \<Rightarrow> None))"

text \<open>
  Modelled from the spec: \<open>parse\<close> trims the input and tries, in this order, dotted
  IPv4, then IPv6 when the text contains \<open>:\<close>, then a plain integer, whose family is
  IPv4 when the value fits in 32 bits and IPv6 when it fits in 128 bits. A text of none
  of these forms fails with InvalidFormat, an integer beyond 128 bits with OutOfRange.
\<close>

definition parse :: "string \<Rightarrow> ParseError + CanonicalAddress" where
  "parse input =
     (let s = trim_text input
      in if is_ipv4_syntax s then
           (case parse_ipv4 s of
              Inl e \<Rightarrow> Inl e
            | Inr v \<Rightarrow> Inr \<lparr>family = IPv4, bits = of_nat v\<rparr>)
         else if CHR '':'' \<in> set s then
           (case parse_ipv6 s of
              Inl e \<Rightarrow> Inl e
            | Inr gs \<Rightarrow> Inr \<lparr>family = IPv6, bits = of_nat (from_digits 65536 gs)\<rparr>)
         else
           (case parse_integer s of
              None \<Rightarrow> Inl InvalidFormat
            | Some v \<Rightarrow>
                if v < 2 ^ 32 then Inr \<lparr>family = IPv4, bits = of_nat v\<rparr>
                else if v < 2 ^ 128 then Inr \<lparr>family = IPv6, bits = of_nat v\<rparr>
                else Inl OutOfRange))"

text \<open>
  Modelled from the spec: the compressed address of \<open>format\<close>. For IPv6 the longest run
  of consecutive zero groups, the leftmost among the longest, is collapsed to \<open>::\<close>;
  following the standard rule, a single zero group is not collapsed.
\<close>

definition run_length :: "nat list \<Rightarrow> nat \<Rightarrow> nat" where
  "run_length gs i = length (takeWhile (\<lambda>g. g = 0) (drop i gs))"

text \<open>Modelled from the spec: start and length of the leftmost longest run of zero groups, when it has at least two groups.\<close>

definition longest_zero_run :: "nat list \<Rightarrow> (nat \<times> nat) option" where
  "longest_zero_run gs =
     (let starts = [0..<length gs];
          m = fold max (map (run_length gs) starts) 0
      in if m < 2 then None
         else (case find (\<lambda>i. run_length gs i = m) starts of
                 None \<Rightarrow> None
               | Some i \<Rightarrow> Some (i, m)))"

text \<open>Modelled from the spec: the pieces of the compressed form around the collapsed run.\<close>

definition gap_tokens :: "nat list \<Rightarrow> nat list \<Rightarrow> string list" where
  "gap_tokens l r =
     (if l = [] then [[]] else map show_hex l) @ [[]] @
     (if r = [] then [[]] else map show_hex r)"

text \<open>Modelled from the spec: the pieces of the compressed IPv6 form, between the colons.\<close>

definition compressed_tokens :: "nat list \<Rightarrow> string list" where
  "compressed_tokens gs =
     (case longest_zero_run gs of
        None \<Rightarrow> map show_hex gs
      | Some (i, m) \<Rightarrow> gap_tokens (take i gs) (drop (i + m) gs))"

text \<open>
  Modelled from the spec: the compressed address is dotted decimal for IPv4 and the
  compressed colon form, in hexadecimal without leading zeros, for IPv6.
\<close>

definition comAddress :: "CanonicalAddress \<Rightarrow> string" where
  "comAddress addr =
     (case family addr of
        IPv4 \<Rightarrow> join ''.'' (map show_dec (to_digits 256 4 (unat (bits addr))))
      | IPv6 \<Rightarrow> join '':'' (compressed_tokens (to_digits 65536 8 (unat (bits addr)))))"

section \<open>The schema\<close>

lemma ascii_simps [simp]:
  "ascii [] = []"
  "ascii (c # cs) = of_char c # ascii cs"
  by (simp_all add: ascii_def)

text \<open>
  C1: the \<open>field\<close> entries of the list returned by \<open>IpFieldService.getData\<close> are exactly
  the twenty engine field names of the specification, in the specification's order.
\<close>

theorem C1_canonical_field_list:
  "map field getData = map ascii
     [''fieldType'',
      ''comAddress'',
      ''exAddress'',
      ''binaryAddress'',
      ''subnet'',
      ''subnetMask'',
      ''prevAddress'',
      ''nextAddress'',
      ''intValue'',
      ''highLow64BitSignedNumber'',
      ''toIpv4'',
      ''toIpv6'',
      ''netWorkAddress'',
      ''netWorkAddressIntValue'',
      ''netWorkAddressHighLow64BitSignedNumber'',
      ''netWorkAddressBinaryAddress'',
      ''broadcastAddress'',
      ''broadcastAddressIntValue'',
      ''broadcastAddressHighLow64BitSignedNumber'',
      ''broadcastAddressBinaryAddress'']
   \<and> length getData = 20"
  by (simp add: getData_def)

text \<open>
  C8: \<open>IpFieldService.getFieldList()\<close> returns the list \<open>IpFieldService.getData()\<close>
  returns.
\<close>

theorem C8_getFieldList_is_getData:
  "getFieldList IpFieldService = getData_method IpFieldService ()
   \<and> getFieldList IpFieldService = getData"
  by (simp add: getFieldList_def IpFieldService_def)

lemma distinct_fields: "distinct (map field getData)"
  by (simp add: getData_def)

lemma distinct_keys: "distinct (map key getData)"
  by (simp add: getData_def)

lemma fields_not_inherited_all:
  "list_all (\<lambda>entry. field entry \<notin> set object_prototype_names) getData"
  by (simp add: getData_def object_prototype_names_def)

lemma field_not_inherited:
  "entry \<in> set getData \<Longrightarrow> field entry \<notin> set object_prototype_names"
  using fields_not_inherited_all by (simp add: list_all_iff)

lemma values_empty_all: "list_all (\<lambda>entry. val entry = JStr []) getData"
  by (simp add: getData_def)

section \<open>The rows of the table\<close>

lemma js_or_empty_iff: "js_or v (JStr []) \<noteq> JStr [] \<longleftrightarrow> truthy v"
  by (cases v) (auto simp: js_or_def)

lemma js_or_truthy: "truthy v \<Longrightarrow> js_or v w = v"
  by (simp add: js_or_def)

lemma js_or_falsy: "\<not> truthy v \<Longrightarrow> js_or v w = w"
  by (simp add: js_or_def)

text \<open>
  Filtering after the coercion keeps the schema entries whose looked-up value is truthy,
  each with that value.
\<close>

lemma rows_alt:
  "resultList (handleResult_then data st) =
     map (\<lambda>entry. entry\<lparr>val := get_prop data (field entry)\<rparr>)
       (filter (\<lambda>entry. truthy (get_prop data (field entry))) getData)"
proof -
  let ?f = "\<lambda>entry::item. entry\<lparr>val := js_or (get_prop data (field entry)) (JStr [])\<rparr>"
  let ?g = "\<lambda>entry::item. entry\<lparr>val := get_prop data (field entry)\<rparr>"
  let ?Q = "\<lambda>entry::item. truthy (get_prop data (field entry))"
  have "filter (\<lambda>r. val r \<noteq> JStr []) (map ?f xs) = map ?g (filter ?Q xs)" for xs
    by (induction xs) (simp_all add: js_or_empty_iff js_or_truthy)
  then show ?thesis
    by (simp add: handleResult_then_def getFieldList_def IpFieldService_def)
qed

lemma rows_fields:
  "map field (resultList (handleResult_then data st)) =
     map field (filter (\<lambda>entry. truthy (get_prop data (field entry))) getData)"
  by (simp add: rows_alt comp_def)

lemma rows_keys:
  "map key (resultList (handleResult_then data st)) =
     map key (filter (\<lambda>entry. truthy (get_prop data (field entry))) getData)"
  by (simp add: rows_alt comp_def)

lemma row_field_iff:
  assumes "entry \<in> set getData"
  shows "field entry \<in> field ` set (resultList (handleResult_then data st)) \<longleftrightarrow>
           truthy (get_prop data (field entry))"
proof
  assume "field entry \<in> field ` set (resultList (handleResult_then data st))"
  then have "field entry \<in> set (map field (resultList (handleResult_then data st)))"
    by simp
  then obtain e where e: "e \<in> set getData" "truthy (get_prop data (field e))"
      "field e = field entry"
    unfolding rows_fields by auto
  then show "truthy (get_prop data (field entry))" by simp
next
  assume "truthy (get_prop data (field entry))"
  with assms have "field entry \<in> set (map field (resultList (handleResult_then data st)))"
    unfolding rows_fields by auto
  then show "field entry \<in> field ` set (resultList (handleResult_then data st))" by simp
qed

lemma row_unique:
  assumes "entry \<in> set getData" "r \<in> set (resultList (handleResult_then data st))"
    "field r = field entry"
  shows "r = entry\<lparr>val := get_prop data (field entry)\<rparr>"
proof -
  from assms(2) obtain e where e: "e \<in> set getData"
      "r = e\<lparr>val := get_prop data (field e)\<rparr>"
    unfolding rows_alt by auto
  with assms(3) have "field e = field entry" by simp
  with e(1) assms(1) have "e = entry"
    using distinct_fields by (meson distinct_map inj_onD)
  with e(2) show ?thesis by simp
qed

lemma get_prop_schema:
  assumes "entry \<in> set getData"
  shows "get_prop data (field entry) =
           (case map_of data (field entry) of None \<Rightarrow> JUndefined | Some v \<Rightarrow> v)"
  using field_not_inherited[OF assms] by (simp add: get_prop_def split: option.splits)

lemma ResultRecord_value:
  assumes "is_ResultRecord data" "map_of data name = Some v"
  shows "\<exists>s. v = JStr s"
proof -
  from assms(2) have "(name, v) \<in> set data" by (rule map_of_SomeD)
  with assms(1) show ?thesis
    by (auto simp: is_ResultRecord_def list_all_iff split: jsval.splits)
qed

lemma truthy_ResultRecord:
  assumes "is_ResultRecord data" "entry \<in> set getData"
  shows "truthy (get_prop data (field entry)) \<longleftrightarrow>
           (\<exists>v. map_of data (field entry) = Some v \<and> v \<noteq> JStr [])"
proof (cases "map_of data (field entry)")
  case None
  then show ?thesis using get_prop_schema[OF assms(2)] by simp
next
  case (Some v)
  then obtain s where "v = JStr s" using ResultRecord_value[OF assms(1)] by blast
  with Some show ?thesis using get_prop_schema[OF assms(2)] by simp
qed

lemma rows_spec:
  assumes "is_ResultRecord data"
  shows "resultList (handleResult_then data st) = displayed_rows_spec data"
proof -
  let ?g = "\<lambda>entry::item. entry\<lparr>val := get_prop data (field entry)\<rparr>"
  let ?Q = "\<lambda>entry::item. truthy (get_prop data (field entry))"
  let ?h = "\<lambda>entry::item. case map_of data (field entry) of
                             None \<Rightarrow> []
                           | Some v \<Rightarrow> if v = JStr [] then [] else [entry\<lparr>val := v\<rparr>]"
  have one: "(if ?Q entry then [?g entry] else []) = ?h entry"
    if "entry \<in> set getData" for entry
    using truthy_ResultRecord[OF assms that] get_prop_schema[OF that]
    by (auto split: option.splits)
  have "map ?g (filter ?Q xs) = concat (map ?h xs)" if "set xs \<subseteq> set getData" for xs
    using that
  proof (induction xs)
    case Nil
    then show ?case by simp
  next
    case (Cons x xs)
    then have "x \<in> set getData" by simp
    from one[OF this] Cons show ?case by (simp split: if_splits)
  qed
  then show ?thesis by (simp add: rows_alt displayed_rows_spec_def)
qed

lemma handleResult_unfold:
  "handleResult translate_ip st =
     (case handleResult_invoke st of
        (st', ip) \<Rightarrow>
          (case translate_ip ip of
             Fulfilled data \<Rightarrow> (handleResult_then data st', [])
           | Rejected err \<Rightarrow> (st', [handleResult_catch err])))"
  by (simp add: handleResult_def run_def handleResult_invoke_def Let_def
      split: outcome.splits)

lemma handleResult_Fulfilled:
  "translate_ip (trim (inputIp st)) = Fulfilled data \<Longrightarrow>
     resultList (fst (handleResult translate_ip st)) =
       resultList (handleResult_then data st')"
  by (simp add: handleResult_unfold handleResult_invoke_def rows_alt)

lemma handleResult_Rejected:
  "translate_ip (trim (inputIp st)) = Rejected err \<Longrightarrow>
     handleResult translate_ip st =
       (st\<lparr>resultList := [], inputIp := trim (inputIp st)\<rparr>, [handleResult_catch err])"
  by (simp add: handleResult_unfold handleResult_invoke_def)

lemma row_present:
  assumes "entry \<in> set getData" "truthy (get_prop data (field entry))"
  shows "entry\<lparr>val := get_prop data (field entry)\<rparr> \<in> set (resultList (handleResult_then data st))"
proof -
  let ?g = "\<lambda>entry::item. entry\<lparr>val := get_prop data (field entry)\<rparr>"
  let ?Q = "\<lambda>entry::item. truthy (get_prop data (field entry))"
  from assms have "entry \<in> set (filter ?Q getData)" by simp
  then have "?g entry \<in> ?g ` set (filter ?Q getData)" by (rule imageI)
  then show ?thesis by (simp only: rows_alt set_map)
qed

text \<open>
  C2: for a result map of the engine (string values) the displayed rows leave out exactly
  the schema entries whose field name is absent from the map or mapped to the empty
  string, and every other schema entry appears once, with the value the map gives its
  field name.
\<close>

theorem C2_rows_of_result_map:
  assumes "translate_ip (trim (inputIp st)) = Fulfilled data" and "is_ResultRecord data"
    and "rows = resultList (fst (handleResult translate_ip st))"
  shows "rows = displayed_rows_spec data \<and>
    (\<forall>entry \<in> set getData.
       (field entry \<notin> field ` set rows \<longleftrightarrow>
          map_of data (field entry) = None \<or> map_of data (field entry) = Some (JStr [])) \<and>
       (\<forall>v. map_of data (field entry) = Some v \<and> v \<noteq> JStr [] \<longrightarrow>
          entry\<lparr>val := v\<rparr> \<in> set rows \<and>
          (\<forall>r \<in> set rows. field r = field entry \<longrightarrow> r = entry\<lparr>val := v\<rparr>)))"
proof -
  have rows: "rows = resultList (handleResult_then data st)"
    unfolding assms(3) using assms(1) by (rule handleResult_Fulfilled)
  have spec: "rows = displayed_rows_spec data"
    unfolding rows using assms(2) by (rule rows_spec)
  have each: "(field entry \<notin> field ` set rows \<longleftrightarrow>
          map_of data (field entry) = None \<or> map_of data (field entry) = Some (JStr [])) \<and>
       (\<forall>v. map_of data (field entry) = Some v \<and> v \<noteq> JStr [] \<longrightarrow>
          entry\<lparr>val := v\<rparr> \<in> set rows \<and>
          (\<forall>r \<in> set rows. field r = field entry \<longrightarrow> r = entry\<lparr>val := v\<rparr>))"
    if mem: "entry \<in> set getData" for entry
  proof -
    have t: "truthy (get_prop data (field entry)) \<longleftrightarrow>
               (\<exists>v. map_of data (field entry) = Some v \<and> v \<noteq> JStr [])"
      using assms(2) mem by (rule truthy_ResultRecord)
    have a: "field entry \<notin> field ` set rows \<longleftrightarrow>
          map_of data (field entry) = None \<or> map_of data (field entry) = Some (JStr [])"
      unfolding rows row_field_iff[OF mem] t by (cases "map_of data (field entry)") simp_all
    have b: "entry\<lparr>val := v\<rparr> \<in> set rows \<and>
          (\<forall>r \<in> set rows. field r = field entry \<longrightarrow> r = entry\<lparr>val := v\<rparr>)"
      if v: "map_of data (field entry) = Some v \<and> v \<noteq> JStr []" for v
    proof -
      have g: "get_prop data (field entry) = v"
        using get_prop_schema[OF mem] v by simp
      have "truthy (get_prop data (field entry))" using t v by blast
      from row_present[OF mem this] have "entry\<lparr>val := v\<rparr> \<in> set rows"
        unfolding rows g .
      moreover have "r = entry\<lparr>val := v\<rparr>" if "r \<in> set rows" "field r = field entry" for r
        using row_unique[OF mem that(1)[unfolded rows] that(2)] unfolding g .
      ultimately show ?thesis by blast
    qed
    show ?thesis
    proof (intro conjI allI impI)
      show "field entry \<notin> field ` set rows \<longleftrightarrow>
          map_of data (field entry) = None \<or> map_of data (field entry) = Some (JStr [])"
        by (rule a)
    next
      fix v assume "map_of data (field entry) = Some v \<and> v \<noteq> JStr []"
      from b[OF this] show "entry\<lparr>val := v\<rparr> \<in> set rows" ..
    next
      fix v assume "map_of data (field entry) = Some v \<and> v \<noteq> JStr []"
      from b[OF this] show "\<forall>r \<in> set rows. field r = field entry \<longrightarrow> r = entry\<lparr>val := v\<rparr>" ..
    qed
  qed
  show ?thesis
  proof (rule conjI)
    show "rows = displayed_rows_spec data" by (rule spec)
    show "\<forall>entry \<in> set getData.
       (field entry \<notin> field ` set rows \<longleftrightarrow>
          map_of data (field entry) = None \<or> map_of data (field entry) = Some (JStr [])) \<and>
       (\<forall>v. map_of data (field entry) = Some v \<and> v \<noteq> JStr [] \<longrightarrow>
          entry\<lparr>val := v\<rparr> \<in> set rows \<and>
          (\<forall>r \<in> set rows. field r = field entry \<longrightarrow> r = entry\<lparr>val := v\<rparr>))"
      using each by (rule ballI)
  qed
qed


theorem C2_rows_of_result_map_witness:
  "is_ResultRecord
     [(ascii ''fieldType'', JStr (ascii ''IPv4'')),
      (ascii ''toIpv4'', JStr []),
      (ascii ''comAddress'', JStr (ascii ''172.17.205.22''))] \<and>
   resultList (fst (handleResult
     (\<lambda>ip. Fulfilled
        [(ascii ''fieldType'', JStr (ascii ''IPv4'')),
         (ascii ''toIpv4'', JStr []),
         (ascii ''comAddress'', JStr (ascii ''172.17.205.22''))]) initial_panel)) =
     [\<lparr>key = [0x5730, 0x5740, 0x7C7B, 0x578B], field = ascii ''fieldType'',
        val = JStr (ascii ''IPv4'')\<rparr>,
      \<lparr>key = [0x538B, 0x7F29, 0x5730, 0x5740], field = ascii ''comAddress'',
        val = JStr (ascii ''172.17.205.22'')\<rparr>]"
proof -
  let ?d = "[(ascii ''fieldType'', JStr (ascii ''IPv4'')),
      (ascii ''toIpv4'', JStr []),
      (ascii ''comAddress'', JStr (ascii ''172.17.205.22''))]"
  have r: "is_ResultRecord ?d" by (simp add: is_ResultRecord_def)
  have "resultList (fst (handleResult (\<lambda>ip. Fulfilled ?d) initial_panel)) =
          displayed_rows_spec ?d"
    using C2_rows_of_result_map[of "\<lambda>ip. Fulfilled ?d" initial_panel ?d, OF refl r refl]
    by (rule conjunct1)
  moreover have "displayed_rows_spec ?d =
     [\<lparr>key = [0x5730, 0x5740, 0x7C7B, 0x578B], field = ascii ''fieldType'',
        val = JStr (ascii ''IPv4'')\<rparr>,
      \<lparr>key = [0x538B, 0x7F29, 0x5730, 0x5740], field = ascii ''comAddress'',
        val = JStr (ascii ''172.17.205.22'')\<rparr>]"
    by (simp add: displayed_rows_spec_def getData_def)
  ultimately show ?thesis using r by (simp only: simp_thms)
qed

section \<open>The call of the engine\<close>

lemma trim_ends:
  assumes ne: "trim s \<noteq> []"
  shows "\<not> is_js_whitespace (hd (trim s)) \<and> \<not> is_js_whitespace (last (trim s))"
proof -
  let ?t = "dropWhile is_js_whitespace s"
  let ?u = "dropWhile is_js_whitespace (rev ?t)"
  have u: "?u \<noteq> []" using ne by (simp add: trim_def)
  have l: "\<not> is_js_whitespace (hd ?u)" using u by (rule hd_dropWhile)
  have "last (trim s) = hd ?u" using u by (simp add: trim_def last_rev)
  with l have 1: "\<not> is_js_whitespace (last (trim s))" by simp
  have tne: "?t \<noteq> []" using u by (metis dropWhile.simps(1) rev.simps(1))
  have "\<exists>ys. ?t = trim s @ ys"
  proof -
    have "rev ?t = takeWhile is_js_whitespace (rev ?t) @ ?u" by simp
    then have "rev (rev ?t) = rev (takeWhile is_js_whitespace (rev ?t) @ ?u)" by (rule arg_cong)
    then have "?t = rev ?u @ rev (takeWhile is_js_whitespace (rev ?t))"
      by (simp only: rev_append rev_rev_ident)
    then show ?thesis by (auto simp: trim_def)
  qed
  then obtain ys where "?t = trim s @ ys" ..
  then have "hd ?t = hd (trim s)" using ne by (metis hd_append2)
  moreover have "\<not> is_js_whitespace (hd ?t)" using tne by (rule hd_dropWhile)
  ultimately show ?thesis using 1 by simp
qed

lemma handleResult_invoke_eq:
  "handleResult_invoke st = (st\<lparr>resultList := [], inputIp := trim (inputIp st)\<rparr>, trim (inputIp st))"
  by (simp add: handleResult_invoke_def)

lemma handleResult_cong:
  "translate_ip (trim (inputIp st)) = translate_ip' (trim (inputIp st)) \<Longrightarrow>
     handleResult translate_ip st = handleResult translate_ip' st"
  by (simp add: handleResult_unfold handleResult_invoke_eq)

text \<open>
  C3: the string \<open>handleResult\<close> submits to \<open>translate_ip\<close> is the trimmed input: it
  neither starts nor ends with white space, and the outcome of the call depends on the
  engine only through its answer for the trimmed input.
\<close>

theorem C3_caller_trims_input:
  assumes "handleResult_invoke st = (st', ip)"
  shows "ip = trim (inputIp st) \<and> inputIp st' = trim (inputIp st) \<and>
    (ip \<noteq> [] \<longrightarrow> \<not> is_js_whitespace (hd ip) \<and> \<not> is_js_whitespace (last ip)) \<and>
    (\<forall>translate_ip translate_ip'. translate_ip ip = translate_ip' ip \<longrightarrow>
       handleResult translate_ip st = handleResult translate_ip' st)"
proof -
  from assms have ip: "ip = trim (inputIp st)" and st': "inputIp st' = trim (inputIp st)"
    by (auto simp: handleResult_invoke_eq)
  show ?thesis
    unfolding ip using st' trim_ends[of "inputIp st"] handleResult_cong[of _ st]
    by blast
qed

theorem C3_caller_trims_input_witness:
  "handleResult_invoke (initial_panel\<lparr>inputIp := ascii ''  172.17.205.22 ''\<rparr>) =
     (\<lparr>resultList = [], inputIp = ascii ''172.17.205.22''\<rparr>, ascii ''172.17.205.22'') \<and>
   ascii ''172.17.205.22'' = trim (ascii ''  172.17.205.22 '') \<and>
   \<not> is_js_whitespace (hd (ascii ''172.17.205.22'')) \<and>
   \<not> is_js_whitespace (last (ascii ''172.17.205.22''))"
proof -
  have e: "handleResult_invoke (initial_panel\<lparr>inputIp := ascii ''  172.17.205.22 ''\<rparr>) =
     (\<lparr>resultList = [], inputIp = ascii ''172.17.205.22''\<rparr>, ascii ''172.17.205.22'')"
    by (simp add: handleResult_invoke_def initial_panel_def trim_def is_js_whitespace_def)
  have i: "inputIp (initial_panel\<lparr>inputIp := ascii ''  172.17.205.22 ''\<rparr>) =
             ascii ''  172.17.205.22 ''"
    by simp
  have ne: "ascii ''172.17.205.22'' \<noteq> []" by simp
  from C3_caller_trims_input[OF e, unfolded i] ne e show ?thesis by blast
qed

text \<open>
  C4: when the engine rejects the call, exactly one notification is added, and its
  \<open>detail\<close> is the error value itself.
\<close>

theorem C4_error_shown_verbatim:
  assumes "translate_ip (trim (inputIp st)) = Rejected err"
  shows "map detail (snd (handleResult translate_ip st)) = [err] \<and>
         snd (handleResult translate_ip st) = [handleResult_catch err] \<and>
         detail (handleResult_catch err) = err"
  using assms by (simp add: handleResult_Rejected handleResult_catch_def)

theorem C4_error_shown_verbatim_witness:
  "map detail (snd (handleResult (\<lambda>ip. Rejected (JStr (ascii ''invalid ip''))) initial_panel))
     = [JStr (ascii ''invalid ip'')]"
  using C4_error_shown_verbatim[of "\<lambda>ip. Rejected (JStr (ascii ''invalid ip''))" initial_panel
      "JStr (ascii ''invalid ip'')"]
  by simp

section \<open>State between calls\<close>

lemma run_Nil: "run translate_ip a [] = a"
  by (simp add: run_def)

lemma run_Cons: "run translate_ip a (e # es) = run translate_ip (step translate_ip a e) es"
  by (simp add: run_def)

lemma run_append:
  "run translate_ip a (es @ es') = run translate_ip (run translate_ip a es) es'"
  by (simp add: run_def)

lemma step_Submit:
  "ui (step translate_ip a Submit) =
     (ui a)\<lparr>resultList := [], inputIp := trim (inputIp (ui a))\<rparr>"
  "pending (step translate_ip a Submit) = pending a @ [trim (inputIp (ui a))]"
  "toasts (step translate_ip a Submit) = toasts a"
  by (simp_all add: handleResult_invoke_eq)

lemma step_Settle_Fulfilled:
  assumes "i < length (pending a)" "translate_ip (pending a ! i) = Fulfilled data"
  shows "resultList (ui (step translate_ip a (Settle i))) =
           resultList (handleResult_then data st)"
    and "inputIp (ui (step translate_ip a (Settle i))) = inputIp (ui a)"
    and "pending (step translate_ip a (Settle i)) =
           take i (pending a) @ drop (Suc i) (pending a)"
  using assms by (simp_all add: rows_alt) (simp add: handleResult_then_def)

lemma step_Settle_Rejected:
  assumes "i < length (pending a)" "translate_ip (pending a ! i) = Rejected err"
  shows "ui (step translate_ip a (Settle i)) = ui a"
    and "toasts (step translate_ip a (Settle i)) = toasts a @ [handleResult_catch err]"
    and "pending (step translate_ip a (Settle i)) =
           take i (pending a) @ drop (Suc i) (pending a)"
  using assms by simp_all

lemma one_call:
  assumes "pending a = []"
  shows "pending (run translate_ip a [Input s, Submit, Settle 0]) = []"
    and "resultList (ui (run translate_ip a [Input s, Submit, Settle 0])) =
           rows_for translate_ip s"
proof -
  let ?b = "step translate_ip (step translate_ip a (Input s)) Submit"
  have p: "pending ?b = [trim s]" using assms by (simp add: handleResult_invoke_eq)
  have r: "resultList (ui ?b) = []" by (simp add: handleResult_invoke_eq)
  have run: "run translate_ip a [Input s, Submit, Settle 0] = step translate_ip ?b (Settle 0)"
    by (simp add: run_Cons run_Nil)
  show "pending (run translate_ip a [Input s, Submit, Settle 0]) = []"
    unfolding run using p by (cases "translate_ip (trim s)") simp_all
  show "resultList (ui (run translate_ip a [Input s, Submit, Settle 0])) =
           rows_for translate_ip s"
  proof (cases "translate_ip (trim s)")
    case (Fulfilled data)
    have i: "0 < length (pending ?b)" using p by simp
    have e: "translate_ip (pending ?b ! 0) = Fulfilled data" using p Fulfilled by simp
    have "resultList (ui (step translate_ip ?b (Settle 0))) =
            resultList (handleResult_then data initial_panel)"
      using i e by (rule step_Settle_Fulfilled(1))
    then show ?thesis
      unfolding run by (simp only: rows_for_def Fulfilled outcome.case)
  next
    case (Rejected err)
    have i: "0 < length (pending ?b)" using p by simp
    have e: "translate_ip (pending ?b ! 0) = Rejected err" using p Rejected by simp
    have "ui (step translate_ip ?b (Settle 0)) = ui ?b"
      using i e by (rule step_Settle_Rejected(1))
    then show ?thesis
      unfolding run using r by (simp only: rows_for_def Rejected outcome.case)
  qed
qed

lemma sequential_calls_snoc:
  "sequential_calls (inputs @ [s]) = sequential_calls inputs @ [Input s, Submit, Settle 0]"
  by (simp add: sequential_calls_def)

lemma sequential_pending:
  "pending a = [] \<Longrightarrow> pending (run translate_ip a (sequential_calls inputs)) = []"
proof (induction inputs rule: rev_induct)
  case Nil
  then show ?case by (simp add: sequential_calls_def run_Nil)
next
  case (snoc s inputs)
  then have "pending (run translate_ip a (sequential_calls inputs)) = []" by simp
  then show ?case
    unfolding sequential_calls_snoc run_append by (rule one_call(1))
qed

lemma sequential_rows:
  assumes "pending a = []" "inputs \<noteq> []"
  shows "resultList (ui (run translate_ip a (sequential_calls inputs))) =
           rows_for translate_ip (last inputs)"
proof -
  from assms(2) obtain front s where inputs: "inputs = front @ [s]"
    by (cases inputs rule: rev_cases) auto
  have "pending (run translate_ip a (sequential_calls front)) = []"
    using assms(1) by (rule sequential_pending)
  then show ?thesis
    unfolding inputs sequential_calls_snoc run_append by (simp add: one_call(2))
qed

lemma new_array_eq:
  "new_array objs h = ([length h ..< length h + length objs], h @ objs)"
proof (induction objs arbitrary: h)
  case Nil
  then show ?case by simp
next
  case (Cons obj objs)
  have "length h < length h + length (obj # objs)" by simp
  then have "[length h ..< length h + length (obj # objs)] =
          length h # [Suc (length h) ..< length h + length (obj # objs)]"
    by (rule upt_conv_Cons)
  moreover have "length h + length (obj # objs) = Suc (length h) + length objs" by simp
  ultimately have "[length h ..< length h + length (obj # objs)] =
          length h # [Suc (length h) ..< Suc (length h) + length objs]"
    by (simp only:)
  moreover have "new_array (obj # objs) h =
      (length h # [Suc (length h) ..< Suc (length h) + length objs], (h @ [obj]) @ objs)"
    by (simp add: Cons new_object_def)
  ultimately show ?case by simp
qed

lemma nth_behind:
  "map (\<lambda>x. (h @ objs) ! x) [length h ..< length h + length objs] = objs"
proof -
  have "[length h ..< length h + length objs] = map (\<lambda>i. i + length h) [0 ..< length objs]"
    by (simp add: map_add_upt add.commute)
  then have "map (\<lambda>x. (h @ objs) ! x) [length h ..< length h + length objs] =
               map (\<lambda>i. (h @ objs) ! (length h + i)) [0 ..< length objs]"
    by (simp add: comp_def add.commute)
  also have "\<dots> = map (\<lambda>i. objs ! i) [0 ..< length objs]"
    by (simp only: nth_append_length_plus)
  also have "\<dots> = objs" by (rule map_nth)
  finally show ?thesis .
qed

lemma getData_new_fresh:
  assumes "getData_new h = (addrs, h')"
  shows "\<forall>x \<in> set addrs. length h \<le> x \<and> x < length h'"
    and "distinct addrs"
    and "take (length h) h' = h"
    and "map (\<lambda>x. h' ! x) addrs = getData"
    and "list_all (\<lambda>x. val (h' ! x) = JStr []) addrs"
proof -
  from assms have a: "addrs = [length h ..< length h + length getData]" and h': "h' = h @ getData"
    by (simp_all add: getData_new_def new_array_eq)
  show "\<forall>x \<in> set addrs. length h \<le> x \<and> x < length h'" unfolding a h' by simp
  show "distinct addrs" unfolding a by simp
  show "take (length h) h' = h" unfolding h' by simp
  show m: "map (\<lambda>x. h' ! x) addrs = getData"
    unfolding a h' by (rule nth_behind)
  have "list_all (\<lambda>entry. val entry = JStr []) (map (\<lambda>x. h' ! x) addrs)"
    unfolding m by (rule values_empty_all)
  then show "list_all (\<lambda>x. val (h' ! x) = JStr []) addrs"
    by (simp add: list_all_iff)
qed


text \<open>
  C5, for calls that do not overlap: every call first empties the rows and then submits
  the trimmed input;
  every call of \<open>getData\<close> creates the twenty objects anew, behind the objects that
  exist, each with the empty string as its value and each as the literal says; the
  rows a fulfilled promise writes are computed from its own result map and the schema
  alone; and when each call settles before the next input is entered, the rows in the
  table are those of the last call, whatever the earlier calls returned.
\<close>

theorem C5_rows_of_settled_calls:
  "resultList (ui (step translate_ip a Submit)) = [] \<and>
   pending (step translate_ip a Submit) = pending a @ [trim (inputIp (ui a))] \<and>
   (getData_new h = (addrs, h') \<longrightarrow>
      (\<forall>x \<in> set addrs. length h \<le> x \<and> x < length h') \<and> distinct addrs \<and>
      take (length h) h' = h \<and> map (\<lambda>x. h' ! x) addrs = getData \<and>
      list_all (\<lambda>x. val (h' ! x) = JStr []) addrs) \<and>
   (i < length (pending a) \<and> translate_ip (pending a ! i) = Fulfilled data \<longrightarrow>
      resultList (ui (step translate_ip a (Settle i))) =
        resultList (handleResult_then data st)) \<and>
   (pending b = [] \<and> inputs \<noteq> [] \<longrightarrow>
      resultList (ui (run translate_ip b (sequential_calls inputs))) =
        rows_for translate_ip (last inputs))"
proof (intro conjI impI)
  show "resultList (ui (step translate_ip a Submit)) = []"
    by (simp add: handleResult_invoke_eq)
  show "pending (step translate_ip a Submit) = pending a @ [trim (inputIp (ui a))]"
    by (rule step_Submit(2))
next
  assume g: "getData_new h = (addrs, h')"
  show "\<forall>x \<in> set addrs. length h \<le> x \<and> x < length h'"
    using g by (rule getData_new_fresh(1))
  show "distinct addrs" using g by (rule getData_new_fresh(2))
  show "take (length h) h' = h" using g by (rule getData_new_fresh(3))
  show "map (\<lambda>x. h' ! x) addrs = getData" using g by (rule getData_new_fresh(4))
  show "list_all (\<lambda>x. val (h' ! x) = JStr []) addrs" using g by (rule getData_new_fresh(5))
next
  assume "i < length (pending a) \<and> translate_ip (pending a ! i) = Fulfilled data"
  then have "i < length (pending a)" "translate_ip (pending a ! i) = Fulfilled data"
    by simp_all
  then show "resultList (ui (step translate_ip a (Settle i))) =
        resultList (handleResult_then data st)"
    by (rule step_Settle_Fulfilled(1))
next
  assume "pending b = [] \<and> inputs \<noteq> []"
  then have "pending b = []" "inputs \<noteq> []" by simp_all
  then show "resultList (ui (run translate_ip b (sequential_calls inputs))) =
        rows_for translate_ip (last inputs)"
    by (rule sequential_rows)
qed

theorem C5_rows_of_settled_calls_witness:
  "getData_new [] = ([0..<20], getData) \<and>
   distinct [0..<20::nat] \<and> map (\<lambda>x. getData ! x) [0..<20] = getData \<and>
   example_engine (ascii ''::1'') =
     Fulfilled [(ascii ''fieldType'', JStr (ascii ''IPv6'')),
                (ascii ''comAddress'', JStr (ascii ''::1''))] \<and>
   resultList (ui (step example_engine
       \<lparr>ui = initial_panel\<lparr>resultList := getData\<rparr>, pending = [ascii ''::1''], toasts = []\<rparr>
       (Settle 0))) =
     resultList (handleResult_then
       [(ascii ''fieldType'', JStr (ascii ''IPv6'')),
        (ascii ''comAddress'', JStr (ascii ''::1''))] initial_panel) \<and>
   resultList (ui (run example_engine
       \<lparr>ui = initial_panel\<lparr>resultList := getData\<rparr>, pending = [], toasts = []\<rparr>
       (sequential_calls [ascii ''1.1.1.1'', ascii '' ::1 '']))) =
     rows_for example_engine (ascii '' ::1 '')"
proof -
  let ?a = "\<lparr>ui = initial_panel\<lparr>resultList := getData\<rparr>, pending = [ascii ''::1''],
             toasts = []\<rparr>"
  let ?b = "\<lparr>ui = initial_panel\<lparr>resultList := getData\<rparr>, pending = [], toasts = []\<rparr>"
  let ?d = "[(ascii ''fieldType'', JStr (ascii ''IPv6'')),
             (ascii ''comAddress'', JStr (ascii ''::1''))]"
  let ?inputs = "[ascii ''1.1.1.1'', ascii '' ::1 '']"
  have len: "length getData = 20" by (simp add: getData_def)
  have h1: "getData_new [] = ([0..<20], getData)"
    by (simp add: getData_new_def new_array_eq len)
  have e: "example_engine (ascii ''::1'') = Fulfilled ?d"
    by (simp add: example_engine_def)
  have h2: "0 < length (pending ?a) \<and> example_engine (pending ?a ! 0) = Fulfilled ?d"
    using e by simp
  have h3: "pending ?b = [] \<and> ?inputs \<noteq> []" by simp
  have l: "last ?inputs = ascii '' ::1 ''" by simp
  from C5_rows_of_settled_calls[of example_engine ?a "[]" "[0..<20]" getData 0 ?d
      initial_panel ?b ?inputs] h1 h2 h3
  have "distinct [0..<20::nat] \<and> map (\<lambda>x. getData ! x) [0..<20] = getData \<and>
        resultList (ui (step example_engine ?a (Settle 0))) =
          resultList (handleResult_then ?d initial_panel) \<and>
        resultList (ui (run example_engine ?b (sequential_calls ?inputs))) =
          rows_for example_engine (last ?inputs)"
    by blast
  with h1 e show ?thesis unfolding l by blast
qed

text \<open>
  C5 as stated fails: when two calls overlap and the promise of the earlier call settles
  last, the table ends with the rows of the earlier call, although the later call has
  been submitted, has settled, and returned other values.
\<close>

theorem C5_overlapping_calls_counterexample:
  "pending (run example_engine initial_app overlapping_calls) = [] \<and>
   inputIp (ui (run example_engine initial_app overlapping_calls)) = ascii ''::1'' \<and>
   map val (resultList (ui (run example_engine initial_app overlapping_calls))) =
     [JStr (ascii ''IPv4''), JStr (ascii ''1.1.1.1'')] \<and>
   map val (rows_for example_engine (ascii ''::1'')) =
     [JStr (ascii ''IPv6''), JStr (ascii ''::1'')]"
proof -
  let ?d1 = "[(ascii ''fieldType'', JStr (ascii ''IPv4'')),
              (ascii ''comAddress'', JStr (ascii ''1.1.1.1''))]"
  let ?d2 = "[(ascii ''fieldType'', JStr (ascii ''IPv6'')),
              (ascii ''comAddress'', JStr (ascii ''::1''))]"
  have t1: "trim (ascii ''1.1.1.1'') = ascii ''1.1.1.1''"
    by (simp add: trim_def is_js_whitespace_def)
  have t2: "trim (ascii ''::1'') = ascii ''::1''"
    by (simp add: trim_def is_js_whitespace_def)
  have e1: "example_engine (ascii ''1.1.1.1'') = Fulfilled ?d1"
    by (simp add: example_engine_def)
  have e2: "example_engine (ascii ''::1'') = Fulfilled ?d2"
    by (simp add: example_engine_def)
  have r1: "map val (resultList (handleResult_then ?d1 st)) =
              [JStr (ascii ''IPv4''), JStr (ascii ''1.1.1.1'')]" for st
    unfolding rows_alt by (simp add: getData_def get_prop_def object_prototype_names_def)
  have r2: "map val (resultList (handleResult_then ?d2 st)) =
              [JStr (ascii ''IPv6''), JStr (ascii ''::1'')]" for st
    unfolding rows_alt by (simp add: getData_def get_prop_def object_prototype_names_def)
  let ?a4 = "run example_engine initial_app
               [Input (ascii ''1.1.1.1''), Submit, Input (ascii ''::1''), Submit]"
  have p4: "pending ?a4 = [ascii ''1.1.1.1'', ascii ''::1'']"
    and i4: "inputIp (ui ?a4) = ascii ''::1''"
    unfolding run_def initial_app_def
    by (simp_all add: handleResult_invoke_eq t1 t2 del: ascii_simps)
  let ?a5 = "step example_engine ?a4 (Settle 1)"
  have p5: "pending ?a5 = [ascii ''1.1.1.1'']" and i5: "inputIp (ui ?a5) = ascii ''::1''"
    using p4 i4 e2 by (simp_all add: handleResult_then_def del: ascii_simps)
  let ?a6 = "step example_engine ?a5 (Settle 0)"
  have p6: "pending ?a6 = []" and i6: "inputIp (ui ?a6) = ascii ''::1''"
    and u6: "resultList (ui ?a6) = resultList (handleResult_then ?d1 (ui ?a5))"
    using p5 i5 e1 by (simp_all add: handleResult_then_def del: ascii_simps)
  have fin: "run example_engine initial_app overlapping_calls = ?a6"
    by (simp add: overlapping_calls_def run_def del: step.simps ascii_simps)
  have "map val (rows_for example_engine (ascii ''::1'')) =
     [JStr (ascii ''IPv6''), JStr (ascii ''::1'')]"
    unfolding rows_for_def t2 e2 by (simp only: outcome.case r2)
  with p6 i6 u6 r1 show ?thesis unfolding fin by simp
qed

section \<open>Distinct names, schema order\<close>

text \<open>
  C9: the field names of the schema are pairwise distinct, and so are its display keys;
  hence a schema entry is determined by its field name or by its key, and no two
  displayed rows have the same field name.
\<close>

theorem C9_schema_names_distinct:
  "distinct (map field getData) \<and> distinct (map key getData) \<and>
   inj_on field (set getData) \<and> inj_on key (set getData) \<and>
   distinct (map field (resultList (handleResult_then data st))) \<and>
   distinct (map key (resultList (handleResult_then data st)))"
proof -
  have 1: "inj_on field (set getData)" and 2: "inj_on key (set getData)"
    using distinct_fields distinct_keys by (simp_all add: distinct_map)
  have 3: "distinct (map field (resultList (handleResult_then data st)))"
    unfolding rows_fields using distinct_fields by (rule distinct_map_filter)
  have 4: "distinct (map key (resultList (handleResult_then data st)))"
    unfolding rows_keys using distinct_keys by (rule distinct_map_filter)
  from distinct_fields distinct_keys 1 2 3 4 show ?thesis by blast
qed

lemma rows_schema_part:
  "map (\<lambda>r. (key r, field r)) (resultList (handleResult_then data st)) =
     filter (\<lambda>p. truthy (get_prop data (snd p))) (map (\<lambda>e. (key e, field e)) getData)"
  by (simp add: rows_alt filter_map comp_def)

lemma get_prop_order:
  assumes "distinct (map fst data)" "distinct (map fst data')" "set data' = set data"
  shows "get_prop data' = get_prop data"
proof -
  from assms have "map_of data' = map_of data"
    by (simp add: map_of_inject_set)
  then show ?thesis by (simp add: get_prop_def fun_eq_iff)
qed

text \<open>
  C10: the displayed rows are the schema entries in schema order with some left out,
  whatever the order of the properties in the result map; a schema entry whose value in
  the map is missing or falsy is coerced to the empty string and left out.
\<close>

theorem C10_rows_in_schema_order:
  "subseq (map (\<lambda>r. (key r, field r)) (resultList (handleResult_then data st)))
          (map (\<lambda>e. (key e, field e)) (getFieldList IpFieldService)) \<and>
   (distinct (map fst data) \<and> distinct (map fst data') \<and> set data' = set data \<longrightarrow>
      resultList (handleResult_then data' st) = resultList (handleResult_then data st)) \<and>
   (\<forall>entry \<in> set (getFieldList IpFieldService).
      \<not> truthy (get_prop data (field entry)) \<longrightarrow>
        js_or (get_prop data (field entry)) (JStr []) = JStr [] \<and>
        field entry \<notin> field ` set (resultList (handleResult_then data st)))"
proof -
  have fl: "getFieldList IpFieldService = getData"
    by (simp add: getFieldList_def IpFieldService_def)
  have 1: "subseq (map (\<lambda>r. (key r, field r)) (resultList (handleResult_then data st)))
          (map (\<lambda>e. (key e, field e)) (getFieldList IpFieldService))"
    unfolding fl rows_schema_part by (rule subseq_filter_left)
  have 2: "resultList (handleResult_then data' st) = resultList (handleResult_then data st)"
    if "distinct (map fst data) \<and> distinct (map fst data') \<and> set data' = set data"
  proof -
    from that have "get_prop data' = get_prop data" by (simp only: get_prop_order)
    then show ?thesis by (simp only: rows_alt)
  qed
  have 3: "js_or (get_prop data (field entry)) (JStr []) = JStr [] \<and>
        field entry \<notin> field ` set (resultList (handleResult_then data st))"
    if "entry \<in> set (getFieldList IpFieldService)" "\<not> truthy (get_prop data (field entry))"
    for entry
    using that row_field_iff[of entry data st] unfolding fl by (simp add: js_or_falsy)
  from 1 2 3 show ?thesis by blast
qed

theorem C10_rows_in_schema_order_witness:
  "\<not> truthy (get_prop [(ascii ''toIpv4'', JNum 0), (ascii ''fieldType'', JStr (ascii ''IPv4''))]
       (ascii ''toIpv4'')) \<and>
   ascii ''toIpv4'' \<notin> field ` set (resultList (handleResult_then
       [(ascii ''toIpv4'', JNum 0), (ascii ''fieldType'', JStr (ascii ''IPv4''))] initial_panel)) \<and>
   resultList (handleResult_then
       [(ascii ''fieldType'', JStr (ascii ''IPv4'')), (ascii ''toIpv4'', JNum 0)] initial_panel) =
   resultList (handleResult_then
       [(ascii ''toIpv4'', JNum 0), (ascii ''fieldType'', JStr (ascii ''IPv4''))] initial_panel)"
proof -
  let ?d = "[(ascii ''toIpv4'', JNum 0), (ascii ''fieldType'', JStr (ascii ''IPv4''))]"
  let ?d' = "[(ascii ''fieldType'', JStr (ascii ''IPv4'')), (ascii ''toIpv4'', JNum 0)]"
  let ?e = "\<lparr>key = [0x8F6C, 0x4E3A, 0x0020, 0x0049, 0x0050, 0x0076, 0x0034],
             field = ascii ''toIpv4'', val = JStr []\<rparr>"
  have m: "?e \<in> set (getFieldList IpFieldService)"
    by (simp add: getFieldList_def IpFieldService_def getData_def)
  have f: "\<not> truthy (get_prop ?d (field ?e))"
    by (simp add: get_prop_def num_is_zero_def)
  have o: "distinct (map fst ?d) \<and> distinct (map fst ?d') \<and> set ?d' = set ?d"
    by auto
  have fe: "field ?e = ascii ''toIpv4''" by simp
  from C10_rows_in_schema_order[of ?d initial_panel ?d'] m f o
  have "field ?e \<notin> field ` set (resultList (handleResult_then ?d initial_panel)) \<and>
        resultList (handleResult_then ?d' initial_panel) =
        resultList (handleResult_then ?d initial_panel)"
    by blast
  with f show ?thesis unfolding fe by blast
qed

section \<open>Subnet bounds\<close>

lemma deriveSubnet_Some:
  assumes "0 \<le> p" "p \<le> int (width (family addr))"
  shows "deriveSubnet addr (Some p) =
     Inr \<lparr>prefixLength = p,
          maskBits = prefix_mask (width (family addr)) (nat p),
          networkAddress = bits addr AND prefix_mask (width (family addr)) (nat p),
          broadcastAddress = bits addr OR
             (NOT (prefix_mask (width (family addr)) (nat p)) AND mask (width (family addr)))\<rparr>"
  using assms by (simp add: deriveSubnet_def Let_def)

lemma deriveSubnet_None:
  "deriveSubnet addr None =
     Inr \<lparr>prefixLength = int (width (family addr)),
          maskBits = prefix_mask (width (family addr)) (width (family addr)),
          networkAddress = bits addr AND prefix_mask (width (family addr)) (width (family addr)),
          broadcastAddress = bits addr OR
             (NOT (prefix_mask (width (family addr)) (width (family addr)))
                AND mask (width (family addr)))\<rparr>"
  by (simp add: deriveSubnet_def Let_def)

lemma deriveSubnet_default_single:
  assumes "valid_address addr"
  shows "\<exists>ctx. deriveSubnet addr None = Inr ctx \<and> networkAddress ctx = bits addr
            \<and> broadcastAddress ctx = bits addr"
proof -
  let ?w = "width (family addr)"
  have m: "prefix_mask ?w ?w = mask ?w" by (simp add: prefix_mask_def)
  have a: "bits addr AND mask ?w = bits addr"
    using assms by (simp add: valid_address_def mask_eq_iff)
  have b: "NOT (mask ?w) AND mask ?w = (0 :: 128 word)"
    by (simp add: and.commute)
  show ?thesis unfolding deriveSubnet_None m by (simp add: a b)
qed

text \<open>
  C7: for every address and every prefix length from 0 to the width of its family,
  \<open>deriveSubnet\<close> produces a SubnetContext, and in it
  \<open>networkAddress \<le> bits \<le> broadcastAddress\<close> in the unsigned order.
\<close>

theorem C7_subnet_bounds:
  assumes "0 \<le> p" and "p \<le> int (width (family addr))"
  shows "\<exists>ctx. deriveSubnet addr (Some p) = Inr ctx \<and>
           networkAddress ctx \<le> bits addr \<and> bits addr \<le> broadcastAddress ctx"
  unfolding deriveSubnet_Some[OF assms]
  by (simp add: word_and_le2 le_word_or2)

theorem C7_subnet_bounds_witness:
  "(0::int) \<le> 16 \<and> 16 \<le> int (width (family \<lparr>family = IPv4, bits = 0xAC11CD16\<rparr>)) \<and>
   (\<exists>ctx. deriveSubnet \<lparr>family = IPv4, bits = 0xAC11CD16\<rparr> (Some 16) = Inr ctx \<and>
      networkAddress ctx \<le> bits \<lparr>family = IPv4, bits = 0xAC11CD16\<rparr> \<and>
      bits \<lparr>family = IPv4, bits = 0xAC11CD16\<rparr> \<le> broadcastAddress ctx)"
proof -
  have h1: "(0::int) \<le> 16" by simp
  have h2: "16 \<le> int (width (family \<lparr>family = IPv4, bits = 0xAC11CD16\<rparr>))"
    by (simp add: width_def)
  from C7_subnet_bounds[OF h1 h2] h1 h2 show ?thesis by blast
qed

lemma deriveSubnet_example:
  "deriveSubnet \<lparr>family = IPv4, bits = 0xAC11CD16\<rparr> (Some 16) =
     Inr \<lparr>prefixLength = 16, maskBits = 0xFFFF0000, networkAddress = 0xAC110000,
          broadcastAddress = 0xAC11FFFF\<rparr>"
  by (simp add: deriveSubnet_def width_def prefix_mask_def mask_eq_exp_minus_1)

section \<open>Parsing the compressed address\<close>

lemma from_digits_snoc: "from_digits b (ds @ [d]) = from_digits b ds * b + d"
  by (simp add: from_digits_def)

lemma from_digits_Nil: "from_digits b [] = 0"
  by (simp add: from_digits_def)

lemma length_to_digits: "length (to_digits b k n) = k"
  by (induction k arbitrary: n) simp_all

lemma to_digits_less: "0 < b \<Longrightarrow> d \<in> set (to_digits b k n) \<Longrightarrow> d < b"
  by (induction k arbitrary: n) auto

lemma from_to_digits: "from_digits b (to_digits b k n) = n mod b ^ k"
proof (induction k arbitrary: n)
  case 0
  then show ?case by (simp add: from_digits_Nil)
next
  case (Suc k)
  have "from_digits b (to_digits b (Suc k) n) = (n div b mod b ^ k) * b + n mod b"
    by (simp add: from_digits_snoc Suc)
  also have "\<dots> = n mod (b * b ^ k)"
    by (simp add: mod_mult2_eq mult.commute)
  finally show ?case by simp
qed

lemma digits_of_nonempty: "digits_of b n \<noteq> []"
  by (subst digits_of.simps) simp

lemma digits_of_less: "2 \<le> b \<Longrightarrow> d \<in> set (digits_of b n) \<Longrightarrow> d < b"
proof (induction b n rule: digits_of.induct)
  case (1 b n)
  show ?case
  proof (cases "n < b")
    case True
    with 1(3) show ?thesis by (subst (asm) digits_of.simps) simp
  next
    case False
    with 1(2) have step: "digits_of b n = digits_of b (n div b) @ [n mod b]"
      by (subst digits_of.simps) simp
    from 1(3) have "d \<in> set (digits_of b (n div b)) \<or> d = n mod b"
      unfolding step by auto
    then show ?thesis
    proof
      assume "d \<in> set (digits_of b (n div b))"
      with 1(1)[OF _ 1(2)] False 1(2) show ?thesis by simp
    next
      assume "d = n mod b"
      with 1(2) show ?thesis by simp
    qed
  qed
qed

lemma from_digits_of: "2 \<le> b \<Longrightarrow> from_digits b (digits_of b n) = n"
proof (induction b n rule: digits_of.induct)
  case (1 b n)
  show ?case
  proof (cases "n < b")
    case True
    then have "digits_of b n = [n]" by (subst digits_of.simps) simp
    then show ?thesis by (simp add: from_digits_def)
  next
    case False
    with 1(2) have step: "digits_of b n = digits_of b (n div b) @ [n mod b]"
      by (subst digits_of.simps) simp
    have "from_digits b (digits_of b (n div b)) = n div b"
      using 1(1)[OF _ 1(2)] False 1(2) by simp
    then show ?thesis unfolding step by (simp add: from_digits_snoc)
  qed
qed

lemma length_digits_of: "2 \<le> b \<Longrightarrow> 0 < k \<Longrightarrow> n < b ^ k \<Longrightarrow> length (digits_of b n) \<le> k"
proof (induction b n arbitrary: k rule: digits_of.induct)
  case (1 b n)
  show ?case
  proof (cases "n < b")
    case True
    then have "digits_of b n = [n]" by (subst digits_of.simps) simp
    with 1(3) show ?thesis by simp
  next
    case False
    with 1(2) have step: "digits_of b n = digits_of b (n div b) @ [n mod b]"
      by (subst digits_of.simps) simp
    from 1(3) obtain j where k: "k = Suc j" by (cases k) auto
    have "j \<noteq> 0"
    proof
      assume "j = 0"
      with k 1(4) False show False by simp
    qed
    then have j: "0 < j" by simp
    have "n div b < b ^ j"
      using 1(4) 1(2) unfolding k by (simp add: less_mult_imp_div_less mult.commute)
    from 1(1)[OF _ 1(2) j this] False 1(2) have "length (digits_of b (n div b)) \<le> j"
      by simp
    then show ?thesis unfolding step k by simp
  qed
qed

lemma of_char_digit_char:
  "d < 16 \<Longrightarrow> (of_char (digit_char d) :: nat) = (if d < 10 then 48 + d else 87 + d)"
  by (simp add: digit_char_def)

lemma digit_value_digit_char: "d < 16 \<Longrightarrow> digit_value (digit_char d) = d"
  by (simp add: digit_value_def of_char_digit_char Let_def)

lemma is_hex_digit_char: "d < 16 \<Longrightarrow> is_hex_digit (digit_char d)"
  by (simp add: is_hex_digit_def is_dec_digit_def of_char_digit_char)

lemma is_dec_digit_char: "d < 10 \<Longrightarrow> is_dec_digit (digit_char d)"
  by (simp add: is_dec_digit_def of_char_digit_char)

lemma is_dec_is_hex: "is_dec_digit c \<Longrightarrow> is_hex_digit c"
  by (simp add: is_hex_digit_def)

lemma hex_digit_not_sep:
  assumes "is_hex_digit c"
  shows "c \<noteq> CHR '':''" "c \<noteq> CHR ''.''" "\<not> is_space c"
  using assms by (auto simp: is_hex_digit_def is_dec_digit_def is_space_def)

lemma read_show_digits:
  assumes "2 \<le> b" "b \<le> 16"
  shows "read_digits b (map digit_char (digits_of b n)) = n"
proof -
  have "map digit_value (map digit_char (digits_of b n)) = digits_of b n"
  proof -
    have "digit_value (digit_char d) = d" if "d \<in> set (digits_of b n)" for d
      using digits_of_less[OF assms(1) that] assms(2) by (simp add: digit_value_digit_char)
    then show ?thesis by (simp add: map_idI)
  qed
  then show ?thesis by (simp add: read_digits_def from_digits_of[OF assms(1)])
qed

lemma read_show_dec: "read_digits 10 (show_dec n) = n"
  by (simp add: show_dec_def read_show_digits)

lemma read_show_hex: "read_digits 16 (show_hex n) = n"
  by (simp add: show_hex_def read_show_digits)

lemma dec_group_show_dec: "dec_group (show_dec n)"
proof -
  have "is_dec_digit (digit_char d)" if "d \<in> set (digits_of 10 n)" for d
    using digits_of_less[of 10 d n] that by (simp add: is_dec_digit_char)
  then show ?thesis
    by (simp add: dec_group_def show_dec_def digits_of_nonempty list_all_iff)
qed

lemma show_hex_digits: "c \<in> set (show_hex n) \<Longrightarrow> is_hex_digit c"
proof -
  assume "c \<in> set (show_hex n)"
  then obtain d where "d \<in> set (digits_of 16 n)" "c = digit_char d"
    by (auto simp: show_hex_def)
  then show ?thesis using digits_of_less[of 16 d n] by (simp add: is_hex_digit_char)
qed

lemma show_dec_digits: "c \<in> set (show_dec n) \<Longrightarrow> is_hex_digit c"
proof -
  assume "c \<in> set (show_dec n)"
  then obtain d where "d \<in> set (digits_of 10 n)" "c = digit_char d"
    by (auto simp: show_dec_def)
  then show ?thesis using digits_of_less[of 10 d n] by (simp add: is_hex_digit_char)
qed

lemma show_hex_nonempty: "show_hex n \<noteq> []"
  by (simp add: show_hex_def digits_of_nonempty)

lemma show_dec_nonempty: "show_dec n \<noteq> []"
  by (simp add: show_dec_def digits_of_nonempty)

lemma hex_group_show_hex: "n < 65536 \<Longrightarrow> hex_group (show_hex n)"
proof -
  assume "n < 65536"
  then have "n < 16 ^ 4" by simp
  then have "length (digits_of 16 n) \<le> 4"
    by (intro length_digits_of) simp_all
  then show ?thesis
    using show_hex_digits[of _ n]
    by (simp add: hex_group_def show_hex_nonempty list_all_iff) (simp add: show_hex_def)
qed

lemma split_on_nonempty: "split_on c s \<noteq> []"
  by (induction s) (auto split: list.splits)

lemma split_on_no_sep: "c \<notin> set t \<Longrightarrow> split_on c t = [t]"
  by (induction t) auto

lemma split_on_append:
  "c \<notin> set t \<Longrightarrow> split_on c (t @ c # rest) = t # split_on c rest"
  by (induction t) auto

lemma split_join:
  assumes "toks \<noteq> []" "\<forall>t \<in> set toks. c \<notin> set t"
  shows "split_on c (join [c] toks) = toks"
  using assms
proof (induction toks)
  case Nil
  then show ?case by simp
next
  case (Cons t ts)
  show ?case
  proof (cases ts)
    case Nil
    with Cons.prems show ?thesis by (simp add: split_on_no_sep)
  next
    case (Cons u us)
    with Cons.prems Cons.IH have "split_on c (join [c] ts) = ts" by simp
    moreover have "join [c] (t # ts) = t @ c # join [c] ts" using Cons by simp
    ultimately show ?thesis using Cons.prems by (simp add: split_on_append)
  qed
qed

lemma set_join: "set (join sep toks) \<subseteq> set sep \<union> \<Union> (set ` set toks)"
  by (induction sep toks rule: join.induct) auto

lemma sep_in_join: "2 \<le> length toks \<Longrightarrow> c \<in> set (join [c] toks)"
proof -
  assume "2 \<le> length toks"
  then obtain a b rest where "toks = a # b # rest"
    by (cases toks; cases "tl toks") auto
  then show ?thesis by simp
qed

lemma hd_join: "toks \<noteq> [] \<Longrightarrow> hd toks \<noteq> [] \<Longrightarrow> hd (join sep toks) = hd (hd toks)"
  by (cases toks; cases "tl toks") auto

lemma dropWhile_none: "\<forall>x \<in> set xs. \<not> P x \<Longrightarrow> dropWhile P xs = xs"
  by (cases xs) auto

lemma trim_text_id:
  assumes "\<forall>c \<in> set s. \<not> is_space c"
  shows "trim_text s = s"
proof -
  have "dropWhile is_space s = s" using assms by (rule dropWhile_none)
  moreover have "dropWhile is_space (rev s) = rev s"
    using assms by (intro dropWhile_none) simp
  ultimately show ?thesis by (simp add: trim_text_def)
qed

lemma unat_less_uint: "unat (w :: 'a::len word) < 2 ^ n \<longleftrightarrow> uint w < 2 ^ n"
proof -
  have "uint w = int (unat w)" by simp
  moreover have "int (unat w) < 2 ^ n \<longleftrightarrow> unat w < 2 ^ n"
    by (metis of_nat_less_iff of_nat_numeral of_nat_power)
  ultimately show ?thesis by simp
qed

lemma dotted_text:
  assumes "length octets = 4"
  shows "trim_text (join ''.'' (map show_dec octets)) = join ''.'' (map show_dec octets)"
    and "split_on (CHR ''.'') (join ''.'' (map show_dec octets)) = map show_dec octets"
proof -
  let ?toks = "map show_dec octets"
  have nodot: "\<forall>t \<in> set ?toks. CHR ''.'' \<notin> set t"
    using show_dec_digits hex_digit_not_sep(2) by auto
  have ne: "?toks \<noteq> []" using assms by auto
  show "split_on (CHR ''.'') (join ''.'' ?toks) = ?toks"
    using split_join[OF ne nodot] by simp
  have "\<not> is_space c" if "c \<in> set (join ''.'' ?toks)" for c
  proof -
    from that set_join[of "''.''" ?toks] have "c = CHR ''.'' \<or> (\<exists>t \<in> set ?toks. c \<in> set t)"
      by auto
    then show ?thesis
    proof
      assume "c = CHR ''.''"
      then show ?thesis by (simp add: is_space_def)
    next
      assume "\<exists>t \<in> set ?toks. c \<in> set t"
      then show ?thesis using show_dec_digits hex_digit_not_sep(3) by auto
    qed
  qed
  then show "trim_text (join ''.'' ?toks) = join ''.'' ?toks"
    by (intro trim_text_id) simp
qed

lemma ipv4_syntax_dotted:
  assumes "length octets = 4"
  shows "is_ipv4_syntax (join ''.'' (map show_dec octets))"
  using assms
  by (simp add: is_ipv4_syntax_def dotted_text(2)[OF assms] list_all_iff dec_group_show_dec)

lemma parse_ipv4_dotted:
  assumes "length octets = 4" "\<forall>n \<in> set octets. n \<le> 255"
  shows "parse_ipv4 (join ''.'' (map show_dec octets)) = Inr (from_digits 256 octets)"
proof -
  have "map (read_digits 10) (map show_dec octets) = octets"
    by (simp add: read_show_dec comp_def)
  then show ?thesis
    using assms(2) by (simp add: parse_ipv4_def dotted_text(2)[OF assms(1)] list_all_iff)
qed

lemma ipv4_roundtrip:
  assumes "valid_address addr" "family addr = IPv4"
  shows "parse (comAddress addr) = Inr addr"
proof -
  let ?n = "unat (bits addr)"
  let ?octets = "to_digits 256 4 ?n"
  have w: "width (family addr) = 32" by (simp add: assms(2) width_def)
  from assms(1) have "uint (bits addr) < 2 ^ 32" unfolding valid_address_def w .
  then have n: "?n < 2 ^ 32" by (rule unat_less_uint[THEN iffD2])
  have len: "length ?octets = 4" by (rule length_to_digits)
  have small: "\<forall>d \<in> set ?octets. d \<le> 255"
    using to_digits_less[of 256 _ 4 ?n] by fastforce
  have shape: "comAddress addr = join ''.'' (map show_dec ?octets)"
    using assms(2) by (simp add: comAddress_def)
  have val: "from_digits 256 ?octets = ?n"
    using n by (simp add: from_to_digits)
  have "parse (comAddress addr) = Inr \<lparr>family = IPv4, bits = of_nat ?n\<rparr>"
    unfolding shape parse_def
    by (simp add: dotted_text(1)[OF len] ipv4_syntax_dotted[OF len]
        parse_ipv4_dotted[OF len small] val Let_def)
  also have "\<lparr>family = IPv4, bits = of_nat ?n\<rparr> = addr"
    using assms(2) by simp
  finally show ?thesis .
qed

lemma takeWhile_zero_replicate:
  "takeWhile (\<lambda>g. g = 0) xs = replicate (length (takeWhile (\<lambda>g. g = (0::nat)) xs)) 0"
  by (induction xs) auto

lemma zero_run_split:
  assumes "run_length gs i = m"
  shows "gs = take i gs @ replicate m 0 @ drop (i + m) gs" and "i + m \<le> length gs \<or> m = 0"
proof -
  let ?P = "\<lambda>g. g = (0::nat)"
  let ?d = "drop i gs"
  have tw: "takeWhile ?P ?d = replicate m 0"
    using takeWhile_zero_replicate[of ?d] assms by (simp add: run_length_def)
  have "dropWhile ?P ?d = drop (length (takeWhile ?P ?d)) ?d"
    by (rule dropWhile_eq_drop)
  then have dw: "dropWhile ?P ?d = drop (i + m) gs"
    using assms by (simp add: run_length_def add.commute)
  have "?d = takeWhile ?P ?d @ dropWhile ?P ?d" by simp
  then have d: "?d = replicate m 0 @ drop (i + m) gs" unfolding tw dw .
  have "gs = take i gs @ ?d" by simp
  then show "gs = take i gs @ replicate m 0 @ drop (i + m) gs" using d by simp
  have "m \<le> length ?d" using assms length_takeWhile_le[of ?P ?d] by (simp add: run_length_def)
  then show "i + m \<le> length gs \<or> m = 0" by auto
qed

lemma longest_zero_run_Some:
  assumes "longest_zero_run gs = Some (i, m)"
  shows "2 \<le> m" "run_length gs i = m"
proof -
  let ?starts = "[0..<length gs]"
  let ?m = "fold max (map (run_length gs) ?starts) 0"
  from assms have big: "\<not> ?m < 2"
    by (auto simp: longest_zero_run_def Let_def split: if_splits)
  with assms have f: "find (\<lambda>i. run_length gs i = ?m) ?starts = Some i" and m: "m = ?m"
    by (auto simp: longest_zero_run_def Let_def split: if_splits option.splits)
  from big m show "2 \<le> m" by simp
  from f have "run_length gs i = ?m" by (auto simp: find_Some_iff)
  with m show "run_length gs i = m" by simp
qed

lemma show_hex_no_dot: "CHR ''.'' \<notin> set (show_hex n)"
  using show_hex_digits hex_digit_not_sep(2) by blast

lemma show_hex_no_colon: "CHR '':'' \<notin> set (show_hex n)"
  using show_hex_digits hex_digit_not_sep(1) by blast

lemma no_dot_not_ipv4: "CHR ''.'' \<notin> set s \<Longrightarrow> \<not> is_ipv4_syntax s"
  by (simp add: is_ipv4_syntax_def split_on_no_sep)

lemma plain_groups_show_hex:
  assumes "\<forall>g \<in> set gs. g < 65536"
  shows "plain_groups (map show_hex gs) = Inr gs"
proof -
  have "map (read_digits 16) (map show_hex gs) = gs"
    by (simp add: read_show_hex comp_def)
  then show ?thesis
    using assms by (simp add: plain_groups_def list_all_iff hex_group_show_hex)
qed

lemma tail_groups_show_hex:
  assumes "\<forall>g \<in> set gs. g < 65536"
  shows "tail_groups (map show_hex gs) = Inr gs"
  using assms
proof (induction gs)
  case Nil
  then show ?case by simp
next
  case (Cons g gs)
  show ?case
  proof (cases gs)
    case Nil
    with Cons.prems show ?thesis
      by (simp add: no_dot_not_ipv4 show_hex_no_dot hex_group_show_hex read_show_hex)
  next
    case (Cons h hs)
    with Cons.prems Cons.IH have "tail_groups (map show_hex gs) = Inr gs" by simp
    with Cons Cons.prems show ?thesis
      by (simp add: hex_group_show_hex read_show_hex)
  qed
qed

lemma takeWhile_show_hex:
  "takeWhile (\<lambda>t. t \<noteq> []) (map show_hex gs @ [] # rest) = map show_hex gs"
  "dropWhile (\<lambda>t. t \<noteq> []) (map show_hex gs @ [] # rest) = [] # rest"
  by (induction gs) (simp_all add: show_hex_nonempty)

lemma takeWhile_show_hex_all:
  "takeWhile (\<lambda>t. t \<noteq> []) (map show_hex gs) = map show_hex gs"
  "dropWhile (\<lambda>t. t \<noteq> []) (map show_hex gs) = []"
  by (induction gs) (simp_all add: show_hex_nonempty)

lemma groups_of_tokens_full:
  assumes "length gs = 8" "\<forall>g \<in> set gs. g < 65536"
  shows "groups_of_tokens (map show_hex gs) = Inr gs"
  using assms
  by (simp add: groups_of_tokens_def takeWhile_show_hex_all tail_groups_show_hex)

lemma groups_of_tokens_gap:
  assumes "\<forall>g \<in> set l. g < 65536" "\<forall>g \<in> set r. g < 65536" "length l + length r \<le> 7"
  shows "groups_of_tokens (gap_tokens l r) =
           Inr (l @ replicate (8 - (length l + length r)) 0 @ r)"
proof -
  let ?R = "if r = [] then [[]] else map show_hex r"
  have R_ne: "?R \<noteq> []" by simp
  have R_tail: "tail_groups (if ?R = [[]] then [] else ?R) = Inr r"
  proof (cases "r = []")
    case True
    then show ?thesis by simp
  next
    case False
    then obtain g gs where r: "r = g # gs" by (cases r) auto
    have "map show_hex r \<noteq> [[]]" unfolding r by (simp add: show_hex_nonempty)
    with False show ?thesis by (simp add: tail_groups_show_hex[OF assms(2)])
  qed
  show ?thesis
  proof (cases "l = []")
    case True
    have toks: "gap_tokens l r = [] # [] # ?R" using True by (simp add: gap_tokens_def)
    show ?thesis
      unfolding toks groups_of_tokens_def
      using R_ne R_tail assms(3) True
      by (simp add: plain_groups_def Let_def)
  next
    case False
    have toks: "gap_tokens l r = map show_hex l @ [] # ?R"
      using False by (simp add: gap_tokens_def)
    show ?thesis
      unfolding toks groups_of_tokens_def takeWhile_show_hex
      using R_ne R_tail assms(3) False plain_groups_show_hex[OF assms(1)]
      by (simp add: Let_def)
  qed
qed

lemma colon_text:
  assumes "2 \<le> length toks" "\<forall>t \<in> set toks. \<forall>c \<in> set t. is_hex_digit c"
  shows "trim_text (join '':'' toks) = join '':'' toks"
    and "\<not> is_ipv4_syntax (join '':'' toks)"
    and "CHR '':'' \<in> set (join '':'' toks)"
    and "split_on (CHR '':'') (join '':'' toks) = toks"
proof -
  let ?s = "join '':'' toks"
  have chars: "c = CHR '':'' \<or> is_hex_digit c" if "c \<in> set ?s" for c
    using that set_join[of "'':''" toks] assms(2) by auto
  have "\<not> is_space c" if "c \<in> set ?s" for c
    using chars[OF that] hex_digit_not_sep(3) by (auto simp: is_space_def)
  then show "trim_text ?s = ?s" by (intro trim_text_id) simp
  have "CHR ''.'' \<notin> set ?s"
    using chars hex_digit_not_sep(2) by fastforce
  then show "\<not> is_ipv4_syntax ?s" by (rule no_dot_not_ipv4)
  show "CHR '':'' \<in> set ?s" using sep_in_join[OF assms(1), of "CHR '':''"] by simp
  have ne: "toks \<noteq> []" using assms(1) by auto
  have "\<forall>t \<in> set toks. CHR '':'' \<notin> set t"
    using assms(2) hex_digit_not_sep(1) by blast
  from split_join[OF ne this] show "split_on (CHR '':'') ?s = toks" by simp
qed

lemma compressed_tokens_ok:
  assumes "length gs = 8" "\<forall>g \<in> set gs. g < 65536"
  shows "2 \<le> length (compressed_tokens gs)"
    and "\<forall>t \<in> set (compressed_tokens gs). \<forall>c \<in> set t. is_hex_digit c"
    and "groups_of_tokens (compressed_tokens gs) = Inr gs"
proof -
  show "2 \<le> length (compressed_tokens gs)"
    using assms(1)
    by (auto simp: compressed_tokens_def gap_tokens_def split: option.splits)
  show "\<forall>t \<in> set (compressed_tokens gs). \<forall>c \<in> set t. is_hex_digit c"
    using show_hex_digits
    by (auto simp: compressed_tokens_def gap_tokens_def split: option.splits if_splits)
  show "groups_of_tokens (compressed_tokens gs) = Inr gs"
  proof (cases "longest_zero_run gs")
    case None
    then show ?thesis
      by (simp add: compressed_tokens_def groups_of_tokens_full[OF assms])
  next
    case (Some p)
    obtain i m where p: "p = (i, m)" by (cases p)
    from Some p have run: "longest_zero_run gs = Some (i, m)" by simp
    from longest_zero_run_Some[OF run] have m: "2 \<le> m" and rl: "run_length gs i = m"
      by simp_all
    from zero_run_split[OF rl] m have
      split: "gs = take i gs @ replicate m 0 @ drop (i + m) gs" and fit: "i + m \<le> length gs"
      by auto
    let ?l = "take i gs" and ?r = "drop (i + m) gs"
    have l: "\<forall>g \<in> set ?l. g < 65536" using assms(2) by (meson in_set_takeD)
    have r: "\<forall>g \<in> set ?r. g < 65536" using assms(2) by (meson in_set_dropD)
    have len: "length ?l + length ?r = 8 - m" using fit assms(1) by simp
    then have le7: "length ?l + length ?r \<le> 7" using m by simp
    have fill: "8 - (length ?l + length ?r) = m" using len fit assms(1) by simp
    have "groups_of_tokens (compressed_tokens gs) = groups_of_tokens (gap_tokens ?l ?r)"
      using run by (simp add: compressed_tokens_def)
    also have "\<dots> = Inr (?l @ replicate (8 - (length ?l + length ?r)) 0 @ ?r)"
      using l r le7 by (rule groups_of_tokens_gap)
    also have "\<dots> = Inr gs" unfolding fill using split by simp
    finally show ?thesis .
  qed
qed

lemma ipv6_roundtrip:
  assumes "family addr = IPv6"
  shows "parse (comAddress addr) = Inr addr"
proof -
  let ?n = "unat (bits addr)"
  let ?gs = "to_digits 65536 8 ?n"
  let ?toks = "compressed_tokens ?gs"
  have len: "length ?gs = 8" by (rule length_to_digits)
  have small: "\<forall>g \<in> set ?gs. g < 65536"
    using to_digits_less[of 65536 _ 8 ?n] by simp
  note toks = compressed_tokens_ok[OF len small]
  note ct = colon_text[OF toks(1) toks(2)]
  have shape: "comAddress addr = join '':'' ?toks"
    using assms by (simp add: comAddress_def)
  have "?n < 2 ^ LENGTH(128)" by (rule unsigned_less)
  then have "?n < 65536 ^ 8" by simp
  then have val: "from_digits 65536 ?gs = ?n" by (simp only: from_to_digits mod_less)
  have "parse (comAddress addr) =
          Inr \<lparr>family = IPv6, bits = of_nat (from_digits 65536 ?gs)\<rparr>"
    unfolding shape parse_def Let_def ct(1)
    by (simp only: ct(2) ct(3) if_False if_True parse_ipv6_def ct(4) toks(3) sum.case)
  also have "\<dots> = Inr addr" unfolding val using assms by simp
  finally show ?thesis .
qed

lemma from_digits_bound:
  assumes "\<forall>d \<in> set ds. d < b"
  shows "from_digits b ds < b ^ length ds"
  using assms
proof (induction ds rule: rev_induct)
  case Nil
  then show ?case by (simp add: from_digits_Nil)
next
  case (snoc d ds)
  then have ih: "from_digits b ds < b ^ length ds" and d: "d < b" by simp_all
  from ih have "from_digits b ds + 1 \<le> b ^ length ds" by simp
  then have "(from_digits b ds + 1) * b \<le> b ^ length ds * b" by (rule mult_le_mono1)
  then have "from_digits b ds * b + b \<le> b * b ^ length ds"
    by (simp add: algebra_simps)
  with d have "from_digits b ds * b + d < b * b ^ length ds" by linarith
  then show ?case by (simp add: from_digits_snoc)
qed

lemma parse_ipv4_bound:
  assumes "is_ipv4_syntax s" "parse_ipv4 s = Inr v"
  shows "v < 2 ^ 32"
proof -
  let ?octets = "map (read_digits 10) (split_on (CHR ''.'') s)"
  from assms(1) have len: "length ?octets = 4" by (simp add: is_ipv4_syntax_def Let_def)
  from assms(2) have small: "\<forall>d \<in> set ?octets. d < 256" and v: "v = from_digits 256 ?octets"
    by (auto simp: parse_ipv4_def Let_def list_all_iff less_Suc_eq_le split: if_splits)
  from from_digits_bound[OF small] have "from_digits 256 ?octets < 256 ^ 4"
    unfolding len .
  with v show ?thesis by simp
qed

lemma valid_of_nat:
  assumes "v < 2 ^ 32"
  shows "valid_address \<lparr>family = IPv4, bits = of_nat v\<rparr>"
proof -
  have "unat (of_nat v :: 128 word) = v mod 2 ^ 128" by (simp add: unat_of_nat)
  also have "\<dots> = v" using assms by simp
  finally have "unat (of_nat v :: 128 word) < 2 ^ 32" using assms by simp
  then have "uint (of_nat v :: 128 word) < 2 ^ 32" by (rule unat_less_uint[THEN iffD1])
  then show ?thesis by (simp add: valid_address_def width_def)
qed

lemma valid_ipv6: "family addr = IPv6 \<Longrightarrow> valid_address addr"
proof -
  assume f: "family addr = IPv6"
  have "uint (bits addr) < 2 ^ LENGTH(128)" by (rule unsigned_less)
  then show ?thesis by (simp add: valid_address_def width_def f)
qed

lemma parse_valid:
  assumes "parse s = Inr addr"
  shows "valid_address addr"
proof -
  let ?t = "trim_text s"
  consider (v4) "is_ipv4_syntax ?t"
    | (v6) "\<not> is_ipv4_syntax ?t" "CHR '':'' \<in> set ?t"
    | (num) "\<not> is_ipv4_syntax ?t" "CHR '':'' \<notin> set ?t"
    by blast
  then show ?thesis
  proof cases
    case v4
    with assms obtain v where v: "parse_ipv4 ?t = Inr v" and a: "addr = \<lparr>family = IPv4, bits = of_nat v\<rparr>"
      by (auto simp: parse_def Let_def split: sum.splits)
    from parse_ipv4_bound[OF v4 v] show ?thesis unfolding a by (rule valid_of_nat)
  next
    case v6
    with assms have "family addr = IPv6"
      by (auto simp: parse_def Let_def split: sum.splits)
    then show ?thesis by (rule valid_ipv6)
  next
    case num
    with assms obtain v where "parse_integer ?t = Some v" and
      a: "(v < 2 ^ 32 \<and> addr = \<lparr>family = IPv4, bits = of_nat v\<rparr>) \<or> family addr = IPv6"
      by (auto simp: parse_def Let_def split: option.splits if_splits)
    from a show ?thesis using valid_of_nat valid_ipv6 by blast
  qed
qed

lemma format_parse:
  assumes "valid_address addr"
  shows "parse (comAddress addr) = Inr addr"
  using assms ipv4_roundtrip ipv6_roundtrip by (cases "family addr") simp_all

text \<open>
  C6: whenever \<open>parse\<close> accepts a text, parsing the compressed address that \<open>format\<close>
  gives for the parsed address yields the same address again: the compressed address
  denotes the same family and bits as the input.
\<close>

theorem C6_parse_format_roundtrip:
  assumes "parse s = Inr addr"
  shows "parse (comAddress addr) = Inr addr"
  using assms by (intro format_parse parse_valid)

theorem C6_parse_format_roundtrip_witness:
  "parse '' 2001:0DB8:0:0:1:0:0:01 '' =
     Inr \<lparr>family = IPv6, bits = 0x20010DB8000000000001000000000001\<rparr> \<and>
   comAddress \<lparr>family = IPv6, bits = 0x20010DB8000000000001000000000001\<rparr> =
     ''2001:db8::1:0:0:1'' \<and>
   parse ''2001:db8::1:0:0:1'' =
     Inr \<lparr>family = IPv6, bits = 0x20010DB8000000000001000000000001\<rparr>"
proof -
  have p: "parse '' 2001:0DB8:0:0:1:0:0:01 '' =
     Inr \<lparr>family = IPv6, bits = 0x20010DB8000000000001000000000001\<rparr>"
    by code_simp
  have c: "comAddress \<lparr>family = IPv6, bits = 0x20010DB8000000000001000000000001\<rparr> =
     ''2001:db8::1:0:0:1''"
    by code_simp
  from C6_parse_format_roundtrip[OF p] p c show ?thesis by simp
qed

text \<open>The scenarios of the specification, and the leading zeros of an IPv4 input.\<close>

lemma scenario_ipv4:
  "parse ''172.17.205.22'' = Inr \<lparr>family = IPv4, bits = 0xAC11CD16\<rparr>"
  "comAddress \<lparr>family = IPv4, bits = 0xAC11CD16\<rparr> = ''172.17.205.22''"
  by code_simp+

lemma scenario_ipv6:
  "parse ''::1'' = Inr \<lparr>family = IPv6, bits = 1\<rparr>"
  "comAddress \<lparr>family = IPv6, bits = 1\<rparr> = ''::1''"
  by code_simp+

lemma scenario_out_of_range: "parse ''999.1.1.1'' = Inl OutOfRange"
  by code_simp

lemma scenario_leading_zeros:
  "parse ''010.001.0.1'' = Inr \<lparr>family = IPv4, bits = 0x0A010001\<rparr>"
  "comAddress \<lparr>family = IPv4, bits = 0x0A010001\<rparr> = ''10.1.0.1''"
  by code_simp+

end
